theory Spec2Isabelle
  imports Main
begin

section \<open>Strings as the program uses them\<close>

text \<open>
  A Python string is a sequence of code points. The model's \<open>string\<close> is a list of
  characters, and a character stands for the code point of the same number, so the
  strings of the model are the Python strings over U+0000 to U+00FF. On these
  \<open>str.lower\<close> and \<open>str.strip\<close> are written out as Python computes them: the capital
  letters are A to Z and U+00C0 to U+00DE without the multiplication sign U+00D7, each
  32 below its small letter; white space is U+0009 to U+000D, U+001C to U+0020, U+0085
  and U+00A0. \<open>str.upper\<close> is the converse on a to z and on U+00E0 to U+00FE without the
  division sign U+00F7. The images of U+00B5, U+00DF and U+00FF under \<open>str.upper\<close> are
  no code points of this range (U+039C, the two letters SS, U+0178); the model leaves
  these three as they are. The program calls \<open>upper\<close> only to compare the result with the
  word UIDVALIDITY, which contains no S, so the comparison is the same either way.
\<close>

definition lower_char :: "char \<Rightarrow> char" where
  "lower_char c =
     (let n = (of_char c :: nat)
      in if (65 \<le> n \<and> n \<le> 90) \<or> (192 \<le> n \<and> n \<le> 222 \<and> n \<noteq> 215) then char_of (n + 32)
         else c)"

definition upper_char :: "char \<Rightarrow> char" where
  "upper_char c =
     (let n = (of_char c :: nat)
      in if (97 \<le> n \<and> n \<le> 122) \<or> (224 \<le> n \<and> n \<le> 254 \<and> n \<noteq> 247) then char_of (n - 32)
         else c)"

definition lower :: "string \<Rightarrow> string" where
  "lower s = map lower_char s"

definition upper :: "string \<Rightarrow> string" where
  "upper s = map upper_char s"

definition is_space :: "char \<Rightarrow> bool" where
  "is_space c =
     (let n = (of_char c :: nat)
      in (9 \<le> n \<and> n \<le> 13) \<or> (28 \<le> n \<and> n \<le> 32) \<or> n = 133 \<or> n = 160)"

definition strip :: "string \<Rightarrow> string" where
  "strip s = rev (dropWhile is_space (rev (dropWhile is_space s)))"

text \<open>\<open>re.split(r'[;,]', s)\<close>: one piece more than there are separators, empty pieces kept.\<close>

fun re_split :: "(char \<Rightarrow> bool) \<Rightarrow> string \<Rightarrow> string list" where
  "re_split p [] = [] # []"
| "re_split p (c # cs) =
     (if p c then [] # re_split p cs
      else (case re_split p cs of
              [] \<Rightarrow> [c] # []
            | w # ws \<Rightarrow> (c # w) # ws))"

definition is_sep :: "char \<Rightarrow> bool" where
  "is_sep c = (c = CHR '';'' \<or> c = CHR '','')"

text \<open>\<open>", ".join(xs)\<close>\<close>

fun join_comma :: "string list \<Rightarrow> string" where
  "join_comma [] = []"
| "join_comma [x] = x"
| "join_comma (x # y # ys) = x @ '', '' @ join_comma (y # ys)"

section \<open>The persistent store\<close>

text \<open>
  The SQLite tables of \<open>init_db\<close> and \<open>create_normalized_tables\<close>, each as the list of its
  rows in insertion (rowid) order. UIDs are the decimal strings the server assigns; the
  model carries the number they denote, which is also what
  \<open>CAST(uid AS INTEGER)\<close> reads. A column that may hold NULL is an \<open>option\<close>.
\<close>

record downloaded_row =
  d_uid :: nat
  d_folder :: string
  d_subject :: string
  d_sender :: string
  d_recipients :: string
  d_cc :: string
  d_bcc :: string
  d_date :: string
  d_body_text :: string
  d_body_html :: string
  d_attachment_dir :: "string option"
  d_message_id :: "string option"

record email_row =
  e_pk :: nat
  e_uid :: nat
  e_folder :: string
  e_subject :: string
  e_date :: string
  e_body_text :: string
  e_body_html :: string
  e_attachment_dir :: "string option"
  e_message_id :: "string option"

record store =
  downloaded_emails :: "downloaded_row list"
  folder_uidvalidity :: "(string \<times> int) list"
  email_address :: "(nat \<times> string) list"
  email :: "email_row list"
  email_participant :: "(nat \<times> nat \<times> string) list"

definition empty_store :: store where
  "empty_store = \<lparr>downloaded_emails = [], folder_uidvalidity = [], email_address = [],
                   email = [], email_participant = []\<rparr>"

text \<open>
  \<open>INTEGER PRIMARY KEY AUTOINCREMENT\<close>: the new rowid is one more than the largest that
  exists (no row is ever deleted, so that is also the largest that ever existed).
\<close>

definition next_rowid :: "nat list \<Rightarrow> nat" where
  "next_rowid ids = Suc (fold max ids 0)"

subsection \<open>Raw records\<close>

definition is_email_downloaded :: "store \<Rightarrow> nat \<Rightarrow> string \<Rightarrow> bool" where
  "is_email_downloaded s uid folder =
     list_ex (\<lambda>r. d_uid r = uid \<and> d_folder r = folder) (downloaded_emails s)"

text \<open>\<open>INSERT OR IGNORE\<close> under \<open>PRIMARY KEY (uid, folder)\<close>.\<close>

definition mark_email_downloaded :: "store \<Rightarrow> downloaded_row \<Rightarrow> store" where
  "mark_email_downloaded s r =
     (if is_email_downloaded s (d_uid r) (d_folder r) then s
      else s\<lparr>downloaded_emails := downloaded_emails s @ [r]\<rparr>)"

definition get_existing_uids :: "store \<Rightarrow> string \<Rightarrow> nat list" where
  "get_existing_uids s folder =
     map d_uid (filter (\<lambda>r. d_folder r = folder) (downloaded_emails s))"

definition get_max_uid :: "store \<Rightarrow> string \<Rightarrow> nat option" where
  "get_max_uid s folder =
     (case get_existing_uids s folder of
        [] \<Rightarrow> None
      | u # us \<Rightarrow> Some (fold max us u))"

subsection \<open>UIDVALIDITY markers\<close>

definition get_uidvalidity :: "store \<Rightarrow> string \<Rightarrow> int option" where
  "get_uidvalidity s folder = map_of (folder_uidvalidity s) folder"

text \<open>\<open>INSERT OR REPLACE\<close> under \<open>folder TEXT PRIMARY KEY\<close>.\<close>

definition set_uidvalidity :: "store \<Rightarrow> string \<Rightarrow> int \<Rightarrow> store" where
  "set_uidvalidity s folder v =
     s\<lparr>folder_uidvalidity :=
         filter (\<lambda>kv. fst kv \<noteq> folder) (folder_uidvalidity s) @ [(folder, v)]\<rparr>"

section \<open>Participant normalizer\<close>

text \<open>
  \<open>get_or_create_email_address\<close>: an empty address yields no identity; otherwise the
  address is trimmed and lower-cased, looked up, and inserted when absent.
\<close>

definition lookup_email_id :: "store \<Rightarrow> string \<Rightarrow> nat option" where
  "lookup_email_id s e =
     (case filter (\<lambda>row. snd row = e) (email_address s) of
        [] \<Rightarrow> None
      | row # _ \<Rightarrow> Some (fst row))"

definition get_or_create_email_address :: "store \<Rightarrow> string \<Rightarrow> nat option \<times> store" where
  "get_or_create_email_address s email_str =
     (if email_str = [] then (None, s)
      else
        let e = lower (strip email_str) in
        (case lookup_email_id s e of
           Some i \<Rightarrow> (Some i, s)
         | None \<Rightarrow>
             let i = next_rowid (map fst (email_address s)) in
             (Some i, s\<lparr>email_address := email_address s @ [(i, e)]\<rparr>)))"

text \<open>
  \<open>add_participant\<close>: \<open>if email_id:\<close> is Python truthiness, so the identity 0 counts as
  none; the insert is \<open>INSERT OR IGNORE\<close> under \<open>PRIMARY KEY (email_pk, email_id, role)\<close>.
\<close>

definition insert_participant :: "store \<Rightarrow> nat \<times> nat \<times> string \<Rightarrow> store" where
  "insert_participant s t =
     (if t \<in> set (email_participant s) then s
      else s\<lparr>email_participant := email_participant s @ [t]\<rparr>)"

definition add_participant :: "store \<Rightarrow> nat \<Rightarrow> string \<Rightarrow> string \<Rightarrow> store" where
  "add_participant s email_pk email_addr role =
     (case get_or_create_email_address s email_addr of
        (None, s') \<Rightarrow> s'
      | (Some email_id, s') \<Rightarrow>
          if email_id = 0 then s' else insert_participant s' (email_pk, email_id, role))"

text \<open>
  \<open>parse_recipients\<close> of \<open>main.py\<close> is duck-typed: its argument is \<open>None\<close>, a string, a
  list of strings, a tuple of strings, or anything else. It tests \<open>isinstance(s, list)\<close>
  and \<open>isinstance(s, str)\<close> only, so a tuple, empty or not, takes the last branch.
\<close>

datatype recipients =
  NoneValue | Str string | Lst "string list" | Tup "string list" | OtherValue

definition split_addresses :: "string \<Rightarrow> string list" where
  "split_addresses s = map strip (filter (\<lambda>e. strip e \<noteq> []) (re_split is_sep s))"

fun parse_recipients :: "recipients \<Rightarrow> string list" where
  "parse_recipients NoneValue = []"
| "parse_recipients (Str s) = (if s = [] then [] else split_addresses s)"
| "parse_recipients (Lst items) = concat (map split_addresses items)"
| "parse_recipients (Tup items) = []"
| "parse_recipients OtherValue = []"

text \<open>The loop \<open>for a in parse_recipients(x): add_participant(conn, email_pk, a, role)\<close>.\<close>

fun add_participants :: "store \<Rightarrow> nat \<Rightarrow> string list \<Rightarrow> string \<Rightarrow> store" where
  "add_participants s email_pk [] role = s"
| "add_participants s email_pk (a # as) role =
     add_participants (add_participant s email_pk a role) email_pk as role"

section \<open>Messages and the mail capability\<close>

text \<open>
  A parsed message as the mail client hands it over. \<open>m_to\<close>, \<open>m_cc\<close> and \<open>m_bcc\<close> hold
  the elements of the tuples of address strings \<open>msg.to\<close>, \<open>msg.cc\<close> and \<open>msg.bcc\<close>; a
  header value is the text \<open>str(value)\<close> gives, or absent.
\<close>

record attachment =
  a_filename :: string
  a_content_type :: string
  a_payload :: string

record msg =
  m_uid :: nat
  m_subject :: string
  m_from :: string
  m_to :: "string list"
  m_cc :: "string list"
  m_bcc :: "string list"
  m_date :: string
  m_text :: string
  m_html :: string
  m_attachments :: "attachment list"
  m_headers :: "(string \<times> string option) list"

datatype exn = RuntimeError | TypeError | StopIteration | OSError | ImapError

text \<open>
  The fetch predicates the program builds: \<open>AND(all=True)\<close>, \<open>AND(uid=f"{n}:*")\<close> and
  \<open>AND(uid=batch)\<close> (also \<open>AND(uid=uid)\<close> for a single UID).
\<close>

datatype criteria = AllMessages | UidFrom nat | UidIn "nat list"

text \<open>
  Everything outside the program is a parameter: the mail server and the file system
  answer each call, and may answer differently at different times (a dropped connection,
  a full disk). The first argument of each answer is the time, counted in calls made so
  far. \<open>folder_status\<close> and \<open>fetch\<close> include the preceding \<open>mailbox.folder.set(folder)\<close>;
  \<open>save_attachments\<close> is the part of \<open>extract_email_data\<close> that creates the directory,
  writes each attachment and extracts its text, and answers the paths written.
\<close>

record world =
  login :: "nat \<Rightarrow> exn option"
  folder_list :: "nat \<Rightarrow> exn + string list"
  folder_status :: "nat \<Rightarrow> string \<Rightarrow> exn + (string \<times> int) list"
  fetch :: "nat \<Rightarrow> string \<Rightarrow> criteria \<Rightarrow> exn + msg list"
  save_attachments :: "nat \<Rightarrow> string \<Rightarrow> nat \<Rightarrow> msg \<Rightarrow> exn + string list"

datatype event =
    Login
  | ListFolders
  | Status string
  | Fetch string criteria
  | SaveAttachments string nat
  | Sleep nat

text \<open>
  The state of one run: the store, the global \<open>failed_emails\<close> list, \<open>failed_folders\<close>,
  the entries appended to \<open>error.log\<close>, and the calls made to the outside so far.
  (\<open>saved_emails\<close> is only appended to and never read or saved; it is left out.)
\<close>

record run_state =
  db :: store
  failed_emails :: "(nat \<times> string) list"
  failed_folders :: "string list"
  error_log :: "(nat \<times> string \<times> exn) list"
  clock :: nat
  trace :: "event list"

definition initial_state :: "store \<Rightarrow> run_state" where
  "initial_state s =
     \<lparr>db = s, failed_emails = [], failed_folders = [], error_log = [], clock = 0, trace = []\<rparr>"

definition tick :: "event \<Rightarrow> run_state \<Rightarrow> run_state" where
  "tick ev st = st\<lparr>clock := Suc (clock st), trace := trace st @ [ev]\<rparr>"

definition log_error :: "nat \<Rightarrow> string \<Rightarrow> exn \<Rightarrow> run_state \<Rightarrow> run_state" where
  "log_error uid folder e st =
     st\<lparr>error_log := error_log st @ [(uid, folder, e)],
        failed_emails := failed_emails st @ [(uid, folder)]\<rparr>"

definition do_fetch ::
  "world \<Rightarrow> string \<Rightarrow> criteria \<Rightarrow> run_state \<Rightarrow> (exn + msg list) \<times> run_state" where
  "do_fetch w folder c st = (fetch w (clock st) folder c, tick (Fetch folder c) st)"

section \<open>Processing one message\<close>

text \<open>
  \<open>extract_email_data\<close>: attachments are saved only when there are any; the Message-ID is
  the value of the first header whose lower-cased name is \<open>message-id\<close>. Of the dictionary
  it returns, the callers read \<open>attachments\<close> and \<open>message_id\<close>.
\<close>

record email_data =
  ed_attachments :: "string list"
  ed_message_id :: "string option"

fun find_message_id :: "(string \<times> string option) list \<Rightarrow> string option" where
  "find_message_id [] = None"
| "find_message_id ((k, v) # hs) =
     (if lower k = ''message-id'' then v else find_message_id hs)"

definition extract_email_data ::
  "world \<Rightarrow> msg \<Rightarrow> nat \<Rightarrow> string \<Rightarrow> run_state \<Rightarrow> (exn + email_data) \<times> run_state" where
  "extract_email_data w m uid folder st =
     (if m_attachments m = [] then
        (Inr \<lparr>ed_attachments = [], ed_message_id = find_message_id (m_headers m)\<rparr>, st)
      else
        (case save_attachments w (clock st) folder uid m of
           Inl e \<Rightarrow> (Inl e, tick (SaveAttachments folder uid) st)
         | Inr paths \<Rightarrow>
             (Inr \<lparr>ed_attachments = paths, ed_message_id = find_message_id (m_headers m)\<rparr>,
              tick (SaveAttachments folder uid) st)))"

text \<open>\<open>email_data['attachments'][0] if email_data['attachments'] else None\<close>\<close>

definition first_attachment :: "string list \<Rightarrow> string option" where
  "first_attachment paths = (case paths of [] \<Rightarrow> None | p # _ \<Rightarrow> Some p)"

text \<open>The argument tuple of the call of \<open>mark_email_downloaded\<close>.\<close>

definition downloaded_row_of :: "nat \<Rightarrow> string \<Rightarrow> msg \<Rightarrow> email_data \<Rightarrow> downloaded_row" where
  "downloaded_row_of uid folder m data =
     \<lparr>d_uid = uid, d_folder = folder, d_subject = m_subject m, d_sender = m_from m,
      d_recipients = join_comma (m_to m), d_cc = join_comma (m_cc m),
      d_bcc = join_comma (m_bcc m), d_date = m_date m, d_body_text = m_text m,
      d_body_html = m_html m, d_attachment_dir = first_attachment (ed_attachments data),
      d_message_id = ed_message_id data\<rparr>"

text \<open>
  \<open>get_or_create_email\<close> of \<open>main.py\<close>. The \<open>email\<close> table has no uniqueness constraint
  besides its rowid, so \<open>INSERT OR IGNORE\<close> always inserts. The following
  \<open>SELECT ... WHERE uid = ? AND folder = ? AND message_id = ?\<close> compares with SQL
  equality, which no row satisfies when the message id is NULL; \<open>cur.fetchone()[0]\<close> then
  raises \<open>TypeError\<close>.
\<close>

definition sql_eq :: "'a option \<Rightarrow> 'a option \<Rightarrow> bool" where
  "sql_eq a b = (case a of None \<Rightarrow> False | Some x \<Rightarrow> (case b of None \<Rightarrow> False | Some y \<Rightarrow> x = y))"

definition get_or_create_email ::
  "store \<Rightarrow> nat \<Rightarrow> string \<Rightarrow> string \<Rightarrow> string \<Rightarrow> string \<Rightarrow> string \<Rightarrow> string option \<Rightarrow>
   string option \<Rightarrow> (exn + nat) \<times> store" where
  "get_or_create_email s uid folder subject date body_text body_html attachment_dir message_id =
     (let row = \<lparr>e_pk = next_rowid (map e_pk (email s)), e_uid = uid, e_folder = folder,
                 e_subject = subject, e_date = date, e_body_text = body_text,
                 e_body_html = body_html, e_attachment_dir = attachment_dir,
                 e_message_id = message_id\<rparr>;
          s' = s\<lparr>email := email s @ [row]\<rparr>
      in case filter (\<lambda>r. e_uid r = uid \<and> e_folder r = folder \<and> sql_eq (e_message_id r) message_id)
                (email s') of
           [] \<Rightarrow> (Inl TypeError, s')
         | r # _ \<Rightarrow> (Inr (e_pk r), s'))"

text \<open>
  The body of the \<open>try\<close> in the message loop of \<open>main\<close>. Every write is committed at once,
  so what was written before an exception stays written. The result is the exception
  that escaped, if any, and the state reached. \<open>msg.to\<close>, \<open>msg.cc\<close> and \<open>msg.bcc\<close> of the
  \<open>MailMessage\<close> that \<open>main.py\<close> imports are tuples of address strings: \<open>", ".join\<close> takes
  them as any sequence, \<open>parse_recipients\<close> takes them as tuples. (\<open>strftime\<close> and
  \<open>isoformat\<close> on the date do not fail; the date is carried as its ISO text.)
\<close>

definition process_message ::
  "world \<Rightarrow> string \<Rightarrow> msg \<Rightarrow> run_state \<Rightarrow> exn option \<times> run_state" where
  "process_message w folder m st =
     (case extract_email_data w m (m_uid m) folder st of
        (Inl e, st1) \<Rightarrow> (Some e, st1)
      | (Inr data, st1) \<Rightarrow>
          (let s1 = mark_email_downloaded (db st1) (downloaded_row_of (m_uid m) folder m data) in
           case get_or_create_email s1 (m_uid m) folder (m_subject m) (m_date m) (m_text m)
                  (m_html m) (first_attachment (ed_attachments data)) (ed_message_id data) of
             (Inl e, s2) \<Rightarrow> (Some e, st1\<lparr>db := s2\<rparr>)
           | (Inr email_pk, s2) \<Rightarrow>
               (let s3 = add_participant s2 email_pk (m_from m) ''from'';
                    s4 = add_participants s3 email_pk (parse_recipients (Tup (m_to m))) ''to'';
                    s5 = add_participants s4 email_pk (parse_recipients (Tup (m_cc m))) ''cc'';
                    s6 = add_participants s5 email_pk (parse_recipients (Tup (m_bcc m))) ''bcc''
                in (None, st1\<lparr>db := s6\<rparr>))))"

text \<open>The loop \<open>for msg in messages\<close> with its \<open>try ... except Exception\<close>.\<close>

fun process_messages ::
  "world \<Rightarrow> string \<Rightarrow> nat list \<Rightarrow> msg list \<Rightarrow> run_state \<Rightarrow> run_state" where
  "process_messages w folder existing_uids [] st = st"
| "process_messages w folder existing_uids (m # ms) st =
     (if m_uid m \<in> set existing_uids then process_messages w folder existing_uids ms st
      else
        (case process_message w folder m st of
           (None, st') \<Rightarrow> process_messages w folder existing_uids ms st'
         | (Some e, st') \<Rightarrow>
             process_messages w folder existing_uids ms (log_error (m_uid m) folder e st')))"

section \<open>Batch fetch orchestrator\<close>

text \<open>
  \<open>[uids[i:i + batch_size] for i in range(0, len(uids), batch_size)]\<close>. A batch size of 0
  makes \<open>range\<close> raise in Python; the program only calls with 10.
\<close>

function split_into_batches :: "'a list \<Rightarrow> nat \<Rightarrow> 'a list list" where
  "split_into_batches uids batch_size =
     (if uids = [] \<or> batch_size = 0 then []
      else take batch_size uids # split_into_batches (drop batch_size uids) batch_size)"
  by pat_completeness auto
termination
  by (relation "measure (\<lambda>(uids, batch_size). length uids)") auto

declare split_into_batches.simps [simp del]

text \<open>The loop \<open>for batch in uid_batches\<close>; a failing fetch escapes to the folder level.\<close>

fun process_batches ::
  "world \<Rightarrow> string \<Rightarrow> nat list \<Rightarrow> nat list list \<Rightarrow> run_state \<Rightarrow> exn option \<times> run_state" where
  "process_batches w folder existing_uids [] st = (None, st)"
| "process_batches w folder existing_uids (batch # batches) st =
     (if list_all (\<lambda>uid. uid \<in> set existing_uids) batch
      then process_batches w folder existing_uids batches st
      else
        (case do_fetch w folder (UidIn batch) st of
           (Inl e, st') \<Rightarrow> (Some e, st')
         | (Inr messages, st') \<Rightarrow>
             process_batches w folder existing_uids batches
               (process_messages w folder existing_uids messages st')))"

text \<open>
  One pass through the body of the \<open>try\<close> inside \<open>while attempt < retry_limit\<close>: the
  enumeration above the highest stored UID (or of the whole folder), then the batches.
  (\<open>log_missing_uids\<close> only writes a report file.)
\<close>

definition enumeration_criteria :: "nat option \<Rightarrow> criteria" where
  "enumeration_criteria max_uid =
     (case max_uid of Some u \<Rightarrow> UidFrom (u + 1) | None \<Rightarrow> AllMessages)"

definition folder_attempt :: "world \<Rightarrow> string \<Rightarrow> run_state \<Rightarrow> exn option \<times> run_state" where
  "folder_attempt w folder st =
     (let max_uid = get_max_uid (db st) folder in
      case do_fetch w folder (enumeration_criteria max_uid) st of
        (Inl e, st1) \<Rightarrow> (Some e, st1)
      | (Inr msgs, st1) \<Rightarrow>
          (let all_uids = map m_uid msgs;
               existing_uids = get_existing_uids (db st1) folder
           in process_batches w folder existing_uids (split_into_batches all_uids 10) st1))"

definition retry_limit :: nat where
  "retry_limit = 3"

text \<open>
  The loop \<open>while attempt < retry_limit\<close>, started with \<open>attempt = 0\<close>: success leaves it
  with \<open>break\<close>; a failure on the last attempt records the folder, any other failure sleeps
  five seconds, and the loop condition is tested again.
\<close>

function folder_retry_loop :: "world \<Rightarrow> string \<Rightarrow> nat \<Rightarrow> run_state \<Rightarrow> run_state" where
  "folder_retry_loop w folder attempt st =
     (if attempt < retry_limit then
        (case folder_attempt w folder st of
           (None, st') \<Rightarrow> st'
         | (Some e, st') \<Rightarrow>
             if attempt + 1 = retry_limit
             then folder_retry_loop w folder (attempt + 1)
                    (st'\<lparr>failed_folders := failed_folders st' @ [folder]\<rparr>)
             else folder_retry_loop w folder (attempt + 1) (tick (Sleep 5) st'))
      else st)"
  by pat_completeness auto
termination
  by (relation "measure (\<lambda>(w, folder, attempt, st). retry_limit - attempt)") auto

declare folder_retry_loop.simps [simp del]

section \<open>Sync state tracker and folder driver\<close>

text \<open>
  \<open>ensure_folder_and_uidvalidity\<close>: the status is searched for the first key that reads
  \<open>UIDVALIDITY\<close> when upper-cased. A missing key and a stored value that differs from the
  current one both raise \<open>RuntimeError\<close>; with no stored value the current one is stored.
\<close>

definition ensure_folder_and_uidvalidity ::
  "world \<Rightarrow> string \<Rightarrow> run_state \<Rightarrow> exn option \<times> run_state" where
  "ensure_folder_and_uidvalidity w folder st =
     (case folder_status w (clock st) folder of
        Inl e \<Rightarrow> (Some e, tick (Status folder) st)
      | Inr status \<Rightarrow>
          (let st1 = tick (Status folder) st in
           case List.find (\<lambda>kv. upper (fst kv) = ''UIDVALIDITY'') status of
             None \<Rightarrow> (Some RuntimeError, st1)
           | Some (key, current_uidvalidity) \<Rightarrow>
               (case get_uidvalidity (db st1) folder of
                  None \<Rightarrow>
                    (None, st1\<lparr>db := set_uidvalidity (db st1) folder current_uidvalidity\<rparr>)
                | Some stored_uidvalidity \<Rightarrow>
                    if stored_uidvalidity \<noteq> current_uidvalidity
                    then (Some RuntimeError, st1)
                    else (None, st1))))"

definition skip_folders :: "string list" where
  "skip_folders =
     [''[gmail]/spam'', ''[gmail]/trash'', ''inbox.spam'', ''inbox.trash'', ''junk'', ''trash'']"

text \<open>
  The loop \<open>for folder in folders_to_process\<close>. It ends by running out of folders, by the
  \<open>break\<close> on a \<open>RuntimeError\<close> of the validity check, or by any other exception of that
  check, which is not caught inside the loop and reaches the outermost handler.
\<close>

datatype outcome = Completed | Halted | Crashed exn

fun process_folders :: "world \<Rightarrow> string list \<Rightarrow> run_state \<Rightarrow> outcome \<times> run_state" where
  "process_folders w [] st = (Completed, st)"
| "process_folders w (folder # rest) st =
     (if lower folder \<in> set skip_folders then process_folders w rest st
      else
        (case ensure_folder_and_uidvalidity w folder st of
           (Some e, st1) \<Rightarrow> if e = RuntimeError then (Halted, st1) else (Crashed e, st1)
         | (None, st1) \<Rightarrow> process_folders w rest (folder_retry_loop w folder 0 st1)))"

section \<open>End-of-run retry\<close>

text \<open>
  The body of \<open>for uid, folder in failed_emails\<close>: a fresh connection, one fetch by UID,
  extraction and the raw insert; any exception goes to \<open>log_error\<close>.
\<close>

definition retry_email :: "world \<Rightarrow> nat \<Rightarrow> string \<Rightarrow> run_state \<Rightarrow> run_state" where
  "retry_email w uid folder st =
     (case login w (clock st) of
        Some e \<Rightarrow> log_error uid folder e (tick Login st)
      | None \<Rightarrow>
          (case do_fetch w folder (UidIn [uid]) (tick Login st) of
             (Inl e, st2) \<Rightarrow> log_error uid folder e st2
           | (Inr [], st2) \<Rightarrow> log_error uid folder StopIteration st2
           | (Inr (m # _), st2) \<Rightarrow>
               (case extract_email_data w m uid folder st2 of
                  (Inl e, st3) \<Rightarrow> log_error uid folder e st3
                | (Inr data, st3) \<Rightarrow>
                    st3\<lparr>db := mark_email_downloaded (db st3)
                                 (downloaded_row_of uid folder m data)\<rparr>)))"

text \<open>
  The \<open>for\<close> loop walks the live list \<open>failed_emails\<close> by position, and \<open>log_error\<close>
  appends to that same list, so the loop need not end: the first argument bounds the
  number of iterations, and \<open>None\<close> says that the bound was reached with entries left.
\<close>

fun retry_failed_emails :: "nat \<Rightarrow> world \<Rightarrow> nat \<Rightarrow> run_state \<Rightarrow> run_state option" where
  "retry_failed_emails 0 w i st = (if i < length (failed_emails st) then None else Some st)"
| "retry_failed_emails (Suc fuel) w i st =
     (if i < length (failed_emails st) then
        (case failed_emails st ! i of
           (uid, folder) \<Rightarrow> retry_failed_emails fuel w (Suc i) (retry_email w uid folder st))
      else Some st)"

section \<open>The run\<close>

text \<open>
  \<open>main\<close>: log in, list the folders, drive them, then retry the failed messages. A failed
  login, a failed listing and an exception that escapes the folder loop all end in the
  outermost handler, which returns at once.
\<close>

definition main :: "nat \<Rightarrow> world \<Rightarrow> store \<Rightarrow> run_state option" where
  "main fuel w s0 =
     (case login w 0 of
        Some e \<Rightarrow> Some (tick Login (initial_state s0))
      | None \<Rightarrow>
          (let st1 = tick Login (initial_state s0) in
           case folder_list w (clock st1) of
             Inl e \<Rightarrow> Some (tick ListFolders st1)
           | Inr folders_to_process \<Rightarrow>
               (case process_folders w folders_to_process (tick ListFolders st1) of
                  (Crashed e, st2) \<Rightarrow> Some st2
                | (Completed, st2) \<Rightarrow> retry_failed_emails fuel w 0 st2
                | (Halted, st2) \<Rightarrow> retry_failed_emails fuel w 0 st2)))"

section \<open>The backfill pass of the migration script\<close>

text \<open>
  \<open>migration_script.py\<close> rebuilds the normalized tables from \<open>downloaded_emails\<close>. Its
  \<open>get_or_create_email_address\<close> is the same function as the one above. Its
  \<open>parse_recipients\<close> takes the stored text and lower-cases as well; its
  \<open>get_or_create_email\<close> inserts without a message id and looks up by uid and folder.
\<close>

definition migration_parse_recipients :: "string \<Rightarrow> string list" where
  "migration_parse_recipients s =
     (if s = [] then []
      else map (\<lambda>e. lower (strip e)) (filter (\<lambda>e. strip e \<noteq> []) (re_split is_sep s)))"

definition migration_get_or_create_email :: "store \<Rightarrow> downloaded_row \<Rightarrow> (exn + nat) \<times> store" where
  "migration_get_or_create_email s row =
     (let new = \<lparr>e_pk = next_rowid (map e_pk (email s)), e_uid = d_uid row,
                 e_folder = d_folder row, e_subject = d_subject row, e_date = d_date row,
                 e_body_text = d_body_text row, e_body_html = d_body_html row,
                 e_attachment_dir = d_attachment_dir row, e_message_id = None\<rparr>;
          s' = s\<lparr>email := email s @ [new]\<rparr>
      in case filter (\<lambda>r. e_uid r = d_uid row \<and> e_folder r = d_folder row) (email s') of
           [] \<Rightarrow> (Inl TypeError, s')
         | r # _ \<Rightarrow> (Inr (e_pk r), s'))"

text \<open>
  The four blocks of the loop body are the same code: resolve the address, and insert the
  link if an identity came back.
\<close>

definition migration_link :: "store \<Rightarrow> nat \<Rightarrow> string \<Rightarrow> string \<Rightarrow> store" where
  "migration_link s email_pk addr role =
     (case get_or_create_email_address s addr of
        (None, s') \<Rightarrow> s'
      | (Some email_id, s') \<Rightarrow>
          if email_id = 0 then s' else insert_participant s' (email_pk, email_id, role))"

fun migration_links :: "store \<Rightarrow> nat \<Rightarrow> string list \<Rightarrow> string \<Rightarrow> store" where
  "migration_links s email_pk [] role = s"
| "migration_links s email_pk (a # as) role =
     migration_links (migration_link s email_pk a role) email_pk as role"

fun migration_rows :: "downloaded_row list \<Rightarrow> store \<Rightarrow> exn + store" where
  "migration_rows [] s = Inr s"
| "migration_rows (row # rows) s =
     (case migration_get_or_create_email s row of
        (Inl e, s') \<Rightarrow> Inl e
      | (Inr email_pk, s1) \<Rightarrow>
          (let s2 = migration_link s1 email_pk (d_sender row) ''from'';
               s3 = migration_links s2 email_pk (migration_parse_recipients (d_recipients row)) ''to'';
               s4 = migration_links s3 email_pk (migration_parse_recipients (d_cc row)) ''cc'';
               s5 = migration_links s4 email_pk (migration_parse_recipients (d_bcc row)) ''bcc''
           in migration_rows rows s5))"

definition migration_main :: "store \<Rightarrow> exn + store" where
  "migration_main s = migration_rows (downloaded_emails s) s"

section \<open>A mailbox that does not change\<close>

text \<open>
  The contents of a mailbox: its folders, the status and the messages of each folder, and
  what saving the attachments of a message yields. \<open>steady_world\<close> is the mail capability
  over such contents when nothing fails in transit and nothing changes over time: every
  call answers from the contents, and a fetch answers the messages that satisfy its
  predicate. The predicate \<open>UidFrom n\<close> is the UID range \<open>n:*\<close>, which a server reads as
  RFC 3501 defines it: \<open>*\<close> is the highest UID of the folder, and the range lies between
  its two ends in either order, so that it holds the message with the highest UID also
  when \<open>n\<close> is above every UID of the folder.
\<close>

record mailbox =
  mb_folders :: "string list"
  mb_status :: "string \<Rightarrow> (string \<times> int) list"
  mb_messages :: "string \<Rightarrow> msg list"
  mb_save :: "string \<Rightarrow> nat \<Rightarrow> msg \<Rightarrow> exn + string list"

definition highest_uid :: "msg list \<Rightarrow> nat" where
  "highest_uid ms = fold max (map m_uid ms) 0"

fun in_range :: "criteria \<Rightarrow> nat \<Rightarrow> nat \<Rightarrow> bool" where
  "in_range AllMessages highest uid = True"
| "in_range (UidFrom n) highest uid = (min n highest \<le> uid)"
| "in_range (UidIn uids) highest uid = (uid \<in> set uids)"

definition select_messages :: "criteria \<Rightarrow> msg list \<Rightarrow> msg list" where
  "select_messages c ms = filter (\<lambda>m. in_range c (highest_uid ms) (m_uid m)) ms"

definition steady_world :: "mailbox \<Rightarrow> world" where
  "steady_world mb =
     \<lparr>login = (\<lambda>t. None),
      folder_list = (\<lambda>t. Inr (mb_folders mb)),
      folder_status = (\<lambda>t folder. Inr (mb_status mb folder)),
      fetch = (\<lambda>t folder c. Inr (select_messages c (mb_messages mb folder))),
      save_attachments = (\<lambda>t folder uid m. mb_save mb folder uid m)\<rparr>"

section \<open>Example mailboxes and stores\<close>

definition example_message ::
  "nat \<Rightarrow> string \<Rightarrow> string list \<Rightarrow> attachment list \<Rightarrow> (string \<times> string option) list \<Rightarrow> msg" where
  "example_message uid sender rcpts atts hdrs =
     \<lparr>m_uid = uid, m_subject = ''Hello'', m_from = sender, m_to = rcpts, m_cc = [],
      m_bcc = [], m_date = ''2024-01-15T10:30:00'', m_text = ''text'', m_html = ''html'',
      m_attachments = atts, m_headers = hdrs\<rparr>"

definition report_pdf :: attachment where
  "report_pdf =
     \<lparr>a_filename = ''report.pdf'', a_content_type = ''application/pdf'', a_payload = ''%PDF''\<rparr>"

text \<open>
  Two folders. \<open>Archive\<close> holds one message with an attachment; \<open>INBOX\<close> holds two plain
  messages and reports UIDVALIDITY 200.
\<close>

definition two_folder_mailbox :: mailbox where
  "two_folder_mailbox =
     \<lparr>mb_folders = [''Archive'', ''INBOX''],
      mb_status = (\<lambda>folder.
         if folder = ''INBOX'' then [(''MESSAGES'', 2), (''UIDVALIDITY'', 200)]
         else [(''MESSAGES'', 1), (''UIDVALIDITY'', 7)]),
      mb_messages = (\<lambda>folder.
         if folder = ''Archive''
         then [example_message 1 ''ann@ex.com'' [''bob@ex.com''] [report_pdf]
                 [(''message-id'', Some ''<a1@ex.com>'')]]
         else if folder = ''INBOX''
         then [example_message 1 ''bob@ex.com'' [''ann@ex.com''] []
                 [(''message-id'', Some ''<b1@ex.com>'')],
               example_message 2 ''cy@ex.com'' [''ann@ex.com'', ''bob@ex.com''] []
                 [(''message-id'', Some ''<b2@ex.com>'')]]
         else []),
      mb_save = (\<lambda>folder uid m. Inr [''email_attachments/Archive/2024/01/1/report.pdf''])\<rparr>"

text \<open>
  The same mailbox reached through a file system that fails for a while: saving
  attachments raises \<open>OSError\<close> during the first nine calls of the run and works afterwards.
\<close>

definition flaky_disk_world :: world where
  "flaky_disk_world =
     (steady_world two_folder_mailbox)
       \<lparr>save_attachments := (\<lambda>t folder uid m.
          if t < 9 then Inl OSError
          else Inr [''email_attachments/Archive/2024/01/1/report.pdf''])\<rparr>"

text \<open>A store that recorded UIDVALIDITY 100 for \<open>INBOX\<close> in an earlier run.\<close>

definition inbox_100_store :: store where
  "inbox_100_store = empty_store\<lparr>folder_uidvalidity := [(''INBOX'', 100)]\<rparr>"

text \<open>The state in which the folder loop of that run starts, and the one it ends in.\<close>

definition flaky_start :: run_state where
  "flaky_start = tick ListFolders (tick Login (initial_state inbox_100_store))"

definition flaky_halted :: run_state where
  "flaky_halted = snd (process_folders flaky_disk_world [''Archive'', ''INBOX''] flaky_start)"

text \<open>
  A batch of three plain messages for \<open>INBOX\<close>; the second one carries no Message-ID
  header.
\<close>

definition plain_message :: "nat \<Rightarrow> string option \<Rightarrow> msg" where
  "plain_message uid message_id =
     example_message uid ''ann@ex.com'' [''bob@ex.com''] []
       (case message_id of None \<Rightarrow> [] | Some v \<Rightarrow> [(''Message-ID'', Some v)])"

definition mixed_batch :: "msg list" where
  "mixed_batch =
     [plain_message 11 (Some ''<11@ex.com>''), plain_message 12 None,
      plain_message 13 (Some ''<13@ex.com>'')]"


text \<open>A mailbox whose only message has a sender but no Message-ID header.\<close>

definition no_message_id_mailbox :: mailbox where
  "no_message_id_mailbox =
     \<lparr>mb_folders = [''INBOX''],
      mb_status = (\<lambda>folder. [(''UIDVALIDITY'', 200)]),
      mb_messages = (\<lambda>folder. if folder = ''INBOX'' then [plain_message 12 None] else []),
      mb_save = (\<lambda>folder uid m. Inr [])\<rparr>"

text \<open>The two-folder mailbox behind a file system on which saving attachments always fails.\<close>

definition broken_disk_world :: world where
  "broken_disk_world =
     (steady_world two_folder_mailbox)\<lparr>save_attachments := (\<lambda>t folder uid m. Inl OSError)\<rparr>"

definition broken_disk_after_folders :: run_state where
  "broken_disk_after_folders =
     snd (process_folders broken_disk_world [''Archive'', ''INBOX'']
            (tick ListFolders (tick Login (initial_state empty_store))))"

text \<open>A store holding one raw record, as the sync leaves it, and nothing normalized yet.\<close>

definition one_raw_record_store :: store where
  "one_raw_record_store =
     empty_store\<lparr>downloaded_emails :=
       [\<lparr>d_uid = 5, d_folder = ''INBOX'', d_subject = ''Hello'', d_sender = ''Ann@Ex.com'',
         d_recipients = ''bob@ex.com, cy@ex.com'', d_cc = [], d_bcc = [],
         d_date = ''2024-01-15T10:30:00'', d_body_text = ''text'', d_body_html = ''html'',
         d_attachment_dir = None, d_message_id = Some ''<5@ex.com>''\<rparr>]\<rparr>"

text \<open>
  The two-folder mailbox behind a server on which every fetch in \<open>Archive\<close> fails. The
  states are those of a run on the empty store: at the start of the folder loop, after the
  validity check of \<open>Archive\<close>, and after each of its three attempts.
\<close>

definition unreachable_archive_world :: world where
  "unreachable_archive_world =
     (steady_world two_folder_mailbox)
       \<lparr>fetch := (\<lambda>t folder c.
          if folder = ''Archive'' then Inl ImapError
          else Inr (select_messages c (mb_messages two_folder_mailbox folder)))\<rparr>"

definition unreachable_start :: run_state where
  "unreachable_start = tick ListFolders (tick Login (initial_state empty_store))"

definition unreachable_checked :: run_state where
  "unreachable_checked =
     snd (ensure_folder_and_uidvalidity unreachable_archive_world ''Archive'' unreachable_start)"

definition unreachable_attempt1 :: run_state where
  "unreachable_attempt1 =
     snd (folder_attempt unreachable_archive_world ''Archive'' unreachable_checked)"

definition unreachable_attempt2 :: run_state where
  "unreachable_attempt2 =
     snd (folder_attempt unreachable_archive_world ''Archive''
            (tick (Sleep 5) unreachable_attempt1))"

definition unreachable_attempt3 :: run_state where
  "unreachable_attempt3 =
     snd (folder_attempt unreachable_archive_world ''Archive''
            (tick (Sleep 5) unreachable_attempt2))"

text \<open>
  A mailbox whose folder \<open>Sent\<close> holds the messages 49 to 53, and a store that holds the
  raw records of 49 and 50 from an earlier run.
\<close>

definition sent_mailbox :: mailbox where
  "sent_mailbox =
     \<lparr>mb_folders = [''Sent''],
      mb_status = (\<lambda>folder. [(''UIDVALIDITY'', 31)]),
      mb_messages = (\<lambda>folder.
         if folder = ''Sent''
         then [plain_message 49 (Some ''<49@ex.com>''), plain_message 50 (Some ''<50@ex.com>''),
               plain_message 51 (Some ''<51@ex.com>''), plain_message 52 (Some ''<52@ex.com>''),
               plain_message 53 (Some ''<53@ex.com>'')]
         else []),
      mb_save = (\<lambda>folder uid m. Inr [])\<rparr>"

definition sent_50_state :: run_state where
  "sent_50_state =
     initial_state
       (empty_store
          \<lparr>downloaded_emails :=
             [downloaded_row_of 49 ''Sent'' (plain_message 49 (Some ''<49@ex.com>''))
                \<lparr>ed_attachments = [], ed_message_id = Some ''<49@ex.com>''\<rparr>,
              downloaded_row_of 50 ''Sent'' (plain_message 50 (Some ''<50@ex.com>''))
                \<lparr>ed_attachments = [], ed_message_id = Some ''<50@ex.com>''\<rparr>],
           folder_uidvalidity := [(''Sent'', 31)]\<rparr>)"

text \<open>
  The folder \<open>Sent\<close> without new mail: it holds the messages 49 and 50, both stored. And
  the folder after the two stored messages were deleted on the server, where it holds the
  older messages 47 and 48, which the store does not have.
\<close>

definition quiet_sent_mailbox :: mailbox where
  "quiet_sent_mailbox =
     \<lparr>mb_folders = [''Sent''],
      mb_status = (\<lambda>folder. [(''UIDVALIDITY'', 31)]),
      mb_messages = (\<lambda>folder.
         if folder = ''Sent''
         then [plain_message 49 (Some ''<49@ex.com>''), plain_message 50 (Some ''<50@ex.com>'')]
         else []),
      mb_save = (\<lambda>folder uid m. Inr [])\<rparr>"

definition pruned_sent_mailbox :: mailbox where
  "pruned_sent_mailbox =
     \<lparr>mb_folders = [''Sent''],
      mb_status = (\<lambda>folder. [(''UIDVALIDITY'', 31)]),
      mb_messages = (\<lambda>folder.
         if folder = ''Sent''
         then [plain_message 47 (Some ''<47@ex.com>''), plain_message 48 (Some ''<48@ex.com>'')]
         else []),
      mb_save = (\<lambda>folder uid m. Inr [])\<rparr>"

text \<open>
  The state of the run on the flaky disk when \<open>Archive\<close> is done and the validity check
  of \<open>INBOX\<close> is about to start.
\<close>

definition flaky_before_inbox :: run_state where
  "flaky_before_inbox =
     folder_retry_loop flaky_disk_world ''Archive'' 0
       (snd (ensure_folder_and_uidvalidity flaky_disk_world ''Archive'' flaky_start))"

text \<open>
  A mailbox whose \<open>INBOX\<close> holds the batch of three messages from above, the second one
  without Message-ID, and which also lists a \<open>Trash\<close> folder.
\<close>

definition mixed_mailbox :: mailbox where
  "mixed_mailbox =
     \<lparr>mb_folders = [''INBOX'', ''Trash''],
      mb_status = (\<lambda>folder. [(''MESSAGES'', 3), (''UIDVALIDITY'', 200)]),
      mb_messages = (\<lambda>folder. if folder = ''INBOX'' then mixed_batch else []),
      mb_save = (\<lambda>folder uid m. Inr [])\<rparr>"

section \<open>Notions used in the proofs\<close>

text \<open>
  \<open>evolves s s'\<close> relates a store to a later one: every table only gains rows at its end,
  stored UIDVALIDITY values stay, and raw records with distinct keys and distinct role
  links stay distinct.
\<close>

definition raw_keys :: "store \<Rightarrow> (nat \<times> string) list" where
  "raw_keys s = map (\<lambda>r. (d_uid r, d_folder r)) (downloaded_emails s)"

definition evolves :: "store \<Rightarrow> store \<Rightarrow> bool" where
  "evolves s s' \<longleftrightarrow>
     (\<exists>more. downloaded_emails s' = downloaded_emails s @ more)
     \<and> (\<exists>more. email s' = email s @ more)
     \<and> (\<exists>more. email_address s' = email_address s @ more)
     \<and> (\<exists>more. email_participant s' = email_participant s @ more)
     \<and> (distinct (raw_keys s) \<longrightarrow> distinct (raw_keys s'))
     \<and> (distinct (email_participant s) \<longrightarrow> distinct (email_participant s'))
     \<and> (\<forall>f v. get_uidvalidity s f = Some v \<longrightarrow> get_uidvalidity s' f = Some v)"

text \<open>A fetch that asks only for UIDs above \<open>U\<close>; events that are no fetch ask for nothing.\<close>

fun fetches_above :: "nat \<Rightarrow> event \<Rightarrow> bool" where
  "fetches_above U (Fetch folder AllMessages) = False"
| "fetches_above U (Fetch folder (UidFrom n)) = (U < n)"
| "fetches_above U (Fetch folder (UidIn uids)) = list_all (\<lambda>uid. U < uid) uids"
| "fetches_above U Login = True"
| "fetches_above U ListFolders = True"
| "fetches_above U (Status folder) = True"
| "fetches_above U (SaveAttachments folder uid) = True"
| "fetches_above U (Sleep n) = True"

text \<open>
  In a mailbox that does not change, \<open>extraction_fails\<close> says that saving the attachments
  of a message fails, which is the one way a message can fail before its raw record is
  written. A folder is \<open>covered\<close> by a store and a retry queue when every message the next
  enumeration returns has a raw record under its UID or is queued, and a folder list is
  \<open>settled\<close> when that holds for every folder up to the one whose validity check stops
  the run.
\<close>

definition extraction_fails :: "mailbox \<Rightarrow> string \<Rightarrow> msg \<Rightarrow> bool" where
  "extraction_fails mb folder m \<longleftrightarrow>
     m_attachments m \<noteq> [] \<and> isl (mb_save mb folder (m_uid m) m)"

definition covered :: "mailbox \<Rightarrow> store \<Rightarrow> (nat \<times> string) list \<Rightarrow> string \<Rightarrow> bool" where
  "covered mb s queue folder \<longleftrightarrow>
     list_all (\<lambda>m. is_email_downloaded s (m_uid m) folder \<or> (m_uid m, folder) \<in> set queue)
       (select_messages (enumeration_criteria (get_max_uid s folder)) (mb_messages mb folder))"

fun settled :: "mailbox \<Rightarrow> store \<Rightarrow> (nat \<times> string) list \<Rightarrow> string list \<Rightarrow> bool" where
  "settled mb s queue [] = True"
| "settled mb s queue (folder # rest) =
     (if lower folder \<in> set skip_folders then settled mb s queue rest
      else
        (case List.find (\<lambda>kv. upper (fst kv) = ''UIDVALIDITY'') (mb_status mb folder) of
           None \<Rightarrow> True
         | Some (key, current) \<Rightarrow>
             (case get_uidvalidity s folder of
                None \<Rightarrow> False
              | Some stored \<Rightarrow>
                  if stored \<noteq> current then True
                  else covered mb s queue folder \<and> settled mb s queue rest)))"

text \<open>
  A queue entry is \<open>retriable\<close> when the folder holds a message with its UID, and its
  retry fails (\<open>retry_fails\<close>) when the fetch by its UID returns nothing or a first message
  that fails in extraction. \<open>advances mb st st'\<close> relates a state of the run to a later
  one: the store has evolved and the queue has gained retriable entries only.
\<close>

fun retriable :: "mailbox \<Rightarrow> nat \<times> string \<Rightarrow> bool" where
  "retriable mb (uid, folder) = list_ex (\<lambda>m. m_uid m = uid) (mb_messages mb folder)"

fun retry_fails :: "mailbox \<Rightarrow> nat \<times> string \<Rightarrow> bool" where
  "retry_fails mb (uid, folder) =
     (case select_messages (UidIn [uid]) (mb_messages mb folder) of
        [] \<Rightarrow> True
      | m # _ \<Rightarrow> extraction_fails mb folder m)"

definition advances :: "mailbox \<Rightarrow> run_state \<Rightarrow> run_state \<Rightarrow> bool" where
  "advances mb st st' \<longleftrightarrow>
     evolves (db st) (db st')
     \<and> (\<exists>more. failed_emails st' = failed_emails st @ more \<and> list_all (retriable mb) more)"




section \<open>Frame properties of the store operations\<close>

lemma mark_email_downloaded_frame [simp]:
  "folder_uidvalidity (mark_email_downloaded s r) = folder_uidvalidity s"
  "email_address (mark_email_downloaded s r) = email_address s"
  "email (mark_email_downloaded s r) = email s"
  "email_participant (mark_email_downloaded s r) = email_participant s"
  by (simp_all add: mark_email_downloaded_def)

lemma set_uidvalidity_frame [simp]:
  "downloaded_emails (set_uidvalidity s f v) = downloaded_emails s"
  "email_address (set_uidvalidity s f v) = email_address s"
  "email (set_uidvalidity s f v) = email s"
  "email_participant (set_uidvalidity s f v) = email_participant s"
  by (simp_all add: set_uidvalidity_def)

lemma get_or_create_email_address_frame [simp]:
  "downloaded_emails (snd (get_or_create_email_address s a)) = downloaded_emails s"
  "folder_uidvalidity (snd (get_or_create_email_address s a)) = folder_uidvalidity s"
  "email (snd (get_or_create_email_address s a)) = email s"
  "email_participant (snd (get_or_create_email_address s a)) = email_participant s"
  by (simp_all add: get_or_create_email_address_def Let_def split: option.splits)

lemma insert_participant_frame [simp]:
  "downloaded_emails (insert_participant s t) = downloaded_emails s"
  "folder_uidvalidity (insert_participant s t) = folder_uidvalidity s"
  "email (insert_participant s t) = email s"
  by (simp_all add: insert_participant_def)

lemma get_or_create_email_address_eq:
  assumes "get_or_create_email_address s a = (r, s')"
  shows "downloaded_emails s' = downloaded_emails s"
    and "folder_uidvalidity s' = folder_uidvalidity s"
    and "email s' = email s"
    and "email_participant s' = email_participant s"
  using assms get_or_create_email_address_frame [of s a] by simp_all

lemma add_participant_frame [simp]:
  "downloaded_emails (add_participant s pk a role) = downloaded_emails s"
  "folder_uidvalidity (add_participant s pk a role) = folder_uidvalidity s"
  "email (add_participant s pk a role) = email s"
  by (auto simp: add_participant_def split: prod.splits option.splits
      dest: get_or_create_email_address_eq)

lemma add_participants_frame [simp]:
  "downloaded_emails (add_participants s pk as role) = downloaded_emails s"
  "folder_uidvalidity (add_participants s pk as role) = folder_uidvalidity s"
  "email (add_participants s pk as role) = email s"
  by (induction as arbitrary: s) simp_all

lemma get_or_create_email_frame [simp]:
  "downloaded_emails (snd (get_or_create_email s u f sb d bt bh ad mid)) = downloaded_emails s"
  "folder_uidvalidity (snd (get_or_create_email s u f sb d bt bh ad mid)) = folder_uidvalidity s"
  "email_address (snd (get_or_create_email s u f sb d bt bh ad mid)) = email_address s"
  "email_participant (snd (get_or_create_email s u f sb d bt bh ad mid)) = email_participant s"
  by (simp_all add: get_or_create_email_def Let_def split: list.splits)

section \<open>Frame properties of the run state\<close>

lemma tick_frame [simp]:
  "db (tick ev st) = db st"
  "failed_emails (tick ev st) = failed_emails st"
  "failed_folders (tick ev st) = failed_folders st"
  "error_log (tick ev st) = error_log st"
  "clock (tick ev st) = Suc (clock st)"
  "trace (tick ev st) = trace st @ [ev]"
  by (simp_all add: tick_def)

lemma log_error_frame [simp]:
  "db (log_error u f e st) = db st"
  "failed_emails (log_error u f e st) = failed_emails st @ [(u, f)]"
  "failed_folders (log_error u f e st) = failed_folders st"
  "error_log (log_error u f e st) = error_log st @ [(u, f, e)]"
  "clock (log_error u f e st) = clock st"
  "trace (log_error u f e st) = trace st"
  by (simp_all add: log_error_def)

lemma do_fetch_frame [simp]:
  "db (snd (do_fetch w f c st)) = db st"
  "failed_emails (snd (do_fetch w f c st)) = failed_emails st"
  "failed_folders (snd (do_fetch w f c st)) = failed_folders st"
  "error_log (snd (do_fetch w f c st)) = error_log st"
  "trace (snd (do_fetch w f c st)) = trace st @ [Fetch f c]"
  "clock (snd (do_fetch w f c st)) = Suc (clock st)"
  by (simp_all add: do_fetch_def)

lemma extract_email_data_frame [simp]:
  "db (snd (extract_email_data w m u f st)) = db st"
  "failed_emails (snd (extract_email_data w m u f st)) = failed_emails st"
  "failed_folders (snd (extract_email_data w m u f st)) = failed_folders st"
  "error_log (snd (extract_email_data w m u f st)) = error_log st"
  by (simp_all add: extract_email_data_def split: sum.splits)

section \<open>The end-of-run retry writes raw records only\<close>

lemma retry_email_frame:
  "email (db (retry_email w u f st)) = email (db st)
   \<and> email_participant (db (retry_email w u f st)) = email_participant (db st)
   \<and> email_address (db (retry_email w u f st)) = email_address (db st)
   \<and> folder_uidvalidity (db (retry_email w u f st)) = folder_uidvalidity (db st)"
proof (cases "login w (clock st)")
  case (Some e)
  then show ?thesis by (simp add: retry_email_def)
next
  case None
  obtain r st2 where fe: "do_fetch w f (UidIn [u]) (tick Login st) = (r, st2)"
    by (cases "do_fetch w f (UidIn [u]) (tick Login st)")
  have st2: "db st2 = db st"
    using do_fetch_frame(1) [of w f "UidIn [u]" "tick Login st"] fe by simp
  show ?thesis
  proof (cases r)
    case (Inl e)
    with None fe st2 show ?thesis by (simp add: retry_email_def)
  next
    case (Inr ms)
    show ?thesis
    proof (cases ms)
      case Nil
      with None fe st2 Inr show ?thesis by (simp add: retry_email_def)
    next
      case (Cons m rest)
      obtain x st3 where ex: "extract_email_data w m u f st2 = (x, st3)"
        by (cases "extract_email_data w m u f st2")
      have st3: "db st3 = db st"
        using extract_email_data_frame(1) [of w m u f st2] ex st2 by simp
      from None fe Inr Cons ex st3 show ?thesis
        by (cases x) (simp_all add: retry_email_def)
    qed
  qed
qed

section \<open>Properties of the participant normalizer\<close>

lemma lookup_email_id_None:
  "(lookup_email_id s e = None) = (e \<notin> snd ` set (email_address s))"
proof -
  have "(lookup_email_id s e = None) = (filter (\<lambda>row. snd row = e) (email_address s) = [])"
    by (simp add: lookup_email_id_def split: list.splits)
  also have "\<dots> = (e \<notin> snd ` set (email_address s))"
    by (auto simp: filter_empty_conv)
  finally show ?thesis .
qed

lemma addresses_get_or_create:
  "snd ` set (email_address (snd (get_or_create_email_address s a))) =
     (if a = [] then {} else {lower (strip a)}) \<union> snd ` set (email_address s)"
proof (cases "lookup_email_id s (lower (strip a))")
  case None
  then show ?thesis
    by (auto simp: get_or_create_email_address_def Let_def)
next
  case (Some i)
  then have "lower (strip a) \<in> snd ` set (email_address s)"
    using lookup_email_id_None [of s "lower (strip a)"] by simp
  with Some show ?thesis
    by (auto simp: get_or_create_email_address_def Let_def)
qed

lemma email_address_insert_participant [simp]:
  "email_address (insert_participant s t) = email_address s"
  by (simp add: insert_participant_def)

lemma addresses_add_participant:
  "snd ` set (email_address (add_participant s pk a role)) =
     (if a = [] then {} else {lower (strip a)}) \<union> snd ` set (email_address s)"
proof (cases "get_or_create_email_address s a")
  case (Pair r s')
  with addresses_get_or_create [of s a] show ?thesis
    by (cases r) (simp_all add: add_participant_def)
qed

lemma addresses_add_participants:
  "snd ` set (email_address (add_participants s pk as role)) =
     snd ` set (email_address s) \<union> (\<lambda>a. lower (strip a)) ` {a \<in> set as. a \<noteq> []}"
  by (induction as arbitrary: s) (auto simp: addresses_add_participant)

lemma parse_delimited_example:
  "parse_recipients (Str ''A@Ex.com; b@ex.com,  '') = [''A@Ex.com'', ''b@ex.com'']"
  by code_simp

lemma parse_list_example:
  "parse_recipients (Lst [''A@Ex.com'', ''b@ex.com'']) = [''A@Ex.com'', ''b@ex.com'']"
  by code_simp

lemma normalize_example_A: "lower (strip ''A@Ex.com'') = ''a@ex.com''"
  by code_simp

lemma normalize_example_b: "lower (strip ''b@ex.com'') = ''b@ex.com''"
  by code_simp

text \<open>
  Claim C7. Recipient normalization does not depend on the representation: the delimited
  string \<open>"A@Ex.com; b@ex.com,  "\<close> and the list \<open>["A@Ex.com", "b@ex.com"]\<close> parse to the
  same addresses; linking them to a message in any role, from any store, gives the same
  store; the addresses the store gains are exactly \<open>a@ex.com\<close> and \<open>b@ex.com\<close>; and from
  the empty store the result is those two Address rows with one role link each.
\<close>

theorem C7_recipient_normalization:
  "parse_recipients (Str ''A@Ex.com; b@ex.com,  '') =
     parse_recipients (Lst [''A@Ex.com'', ''b@ex.com''])
   \<and> add_participants s pk (parse_recipients (Str ''A@Ex.com; b@ex.com,  '')) role =
     add_participants s pk (parse_recipients (Lst [''A@Ex.com'', ''b@ex.com''])) role
   \<and> snd ` set (email_address
        (add_participants s pk (parse_recipients (Str ''A@Ex.com; b@ex.com,  '')) role)) =
     snd ` set (email_address s) \<union> {''a@ex.com'', ''b@ex.com''}
   \<and> add_participants empty_store pk (parse_recipients (Str ''A@Ex.com; b@ex.com,  '')) role =
     empty_store\<lparr>email_address := [(1, ''a@ex.com''), (2, ''b@ex.com'')],
                 email_participant := [(pk, 1, role), (pk, 2, role)]\<rparr>"
proof -
  have addrs: "(\<lambda>a. lower (strip a)) ` {a \<in> set [''A@Ex.com'', ''b@ex.com'']. a \<noteq> []} =
      {''a@ex.com'', ''b@ex.com''}"
    using normalize_example_A normalize_example_b by force
  have e: "add_participants empty_store pk [''A@Ex.com'', ''b@ex.com''] role =
     empty_store\<lparr>email_address := [(1, ''a@ex.com''), (2, ''b@ex.com'')],
                 email_participant := [(pk, 1, role), (pk, 2, role)]\<rparr>"
    by (simp add: add_participant_def get_or_create_email_address_def
        normalize_example_A normalize_example_b lookup_email_id_def empty_store_def
        next_rowid_def insert_participant_def Let_def)
  show ?thesis
    unfolding parse_delimited_example parse_list_example
    using addresses_add_participants [of s pk "[''A@Ex.com'', ''b@ex.com'']" role] e
    by (simp only: addrs)
qed

section \<open>The end-of-run retry pass\<close>

lemma retry_email_downloaded:
  "downloaded_emails (db (retry_email w u f st)) = downloaded_emails (db st)
   \<or> (\<exists>r. d_uid r = u \<and> d_folder r = f
          \<and> downloaded_emails (db (retry_email w u f st)) = downloaded_emails (db st) @ [r])"
proof (cases "login w (clock st)")
  case (Some e)
  then show ?thesis by (simp add: retry_email_def)
next
  case None
  obtain r st2 where fe: "do_fetch w f (UidIn [u]) (tick Login st) = (r, st2)"
    by (cases "do_fetch w f (UidIn [u]) (tick Login st)")
  have st2: "db st2 = db st"
    using do_fetch_frame(1) [of w f "UidIn [u]" "tick Login st"] fe by simp
  show ?thesis
  proof (cases r)
    case (Inl e)
    with None fe st2 show ?thesis by (simp add: retry_email_def)
  next
    case (Inr ms)
    show ?thesis
    proof (cases ms)
      case Nil
      with None fe st2 Inr show ?thesis by (simp add: retry_email_def)
    next
      case (Cons m rest)
      obtain x st3 where ex: "extract_email_data w m u f st2 = (x, st3)"
        by (cases "extract_email_data w m u f st2")
      have st3: "db st3 = db st"
        using extract_email_data_frame(1) [of w m u f st2] ex st2 by simp
      from None fe Inr Cons ex st3 show ?thesis
        by (cases x) (auto simp: retry_email_def mark_email_downloaded_def downloaded_row_of_def)
    qed
  qed
qed

lemma retry_failed_emails_frame:
  "retry_failed_emails fuel w i st = Some st' \<Longrightarrow>
     email (db st') = email (db st)
     \<and> email_participant (db st') = email_participant (db st)
     \<and> email_address (db st') = email_address (db st)
     \<and> folder_uidvalidity (db st') = folder_uidvalidity (db st)"
proof (induction fuel arbitrary: i st)
  case 0
  then show ?case by (simp split: if_splits)
next
  case (Suc fuel)
  show ?case
  proof (cases "i < length (failed_emails st)")
    case False
    with Suc.prems show ?thesis by simp
  next
    case True
    obtain u f where uf: "failed_emails st ! i = (u, f)"
      by (cases "failed_emails st ! i")
    from Suc.prems True uf
    have "retry_failed_emails fuel w (Suc i) (retry_email w u f st) = Some st'"
      by simp
    from Suc.IH [OF this] retry_email_frame [of w u f st] show ?thesis
      by simp
  qed
qed

text \<open>
  Claim C10. The end-of-run retry writes raw records only: whenever the pass returns, the
  \<open>email\<close> and \<open>email_participant\<close> tables are what they were before it; and one retry
  leaves both tables alone and either leaves \<open>downloaded_emails\<close> alone or appends the
  one row of the retried message to it.
\<close>

theorem C10_retry_writes_raw_records_only:
  assumes "retry_failed_emails fuel w i st = Some st'"
  shows "email (db st') = email (db st)
       \<and> email_participant (db st') = email_participant (db st)
       \<and> email (db (retry_email w uid folder st)) = email (db st)
       \<and> email_participant (db (retry_email w uid folder st)) = email_participant (db st)
       \<and> (downloaded_emails (db (retry_email w uid folder st)) = downloaded_emails (db st)
          \<or> (\<exists>r. d_uid r = uid \<and> d_folder r = folder
                 \<and> downloaded_emails (db (retry_email w uid folder st)) =
                     downloaded_emails (db st) @ [r]))"
  using retry_failed_emails_frame [OF assms] retry_email_frame [of w uid folder st]
    retry_email_downloaded [of w uid folder st]
  by simp

lemma flaky_retry_returns:
  "retry_failed_emails 3 flaky_disk_world 0 flaky_halted =
     Some (the (retry_failed_emails 3 flaky_disk_world 0 flaky_halted))"
  by code_simp

theorem C10_retry_writes_raw_records_only_witness:
  "\<exists>st'. retry_failed_emails 3 flaky_disk_world 0 flaky_halted = Some st'
     \<and> email (db st') = email (db flaky_halted)
     \<and> email_participant (db st') = email_participant (db flaky_halted)
     \<and> downloaded_emails (db flaky_halted) = []
     \<and> map d_uid (downloaded_emails (db st')) = [1]"
proof -
  let ?st' = "the (retry_failed_emails 3 flaky_disk_world 0 flaky_halted)"
  have d0: "downloaded_emails (db flaky_halted) = []"
    by code_simp
  have d1: "map d_uid (downloaded_emails (db ?st')) = [1]"
    by code_simp
  from C10_retry_writes_raw_records_only [OF flaky_retry_returns, of 1 "''Archive''"]
  have fr: "email (db ?st') = email (db flaky_halted)
      \<and> email_participant (db ?st') = email_participant (db flaky_halted)"
    by blast
  show ?thesis
    by (rule exI [of _ ?st']) (use flaky_retry_returns fr d0 d1 in blast)
qed

section \<open>Processing messages: what is written and what is queued\<close>

lemma is_email_downloaded_iff:
  "is_email_downloaded s u g = (\<exists>r \<in> set (downloaded_emails s). d_uid r = u \<and> d_folder r = g)"
  by (simp add: is_email_downloaded_def list_ex_iff)

lemma is_email_downloaded_mark:
  "is_email_downloaded (mark_email_downloaded s r) u g =
     (is_email_downloaded s u g \<or> (d_uid r = u \<and> d_folder r = g))"
  by (auto simp: mark_email_downloaded_def is_email_downloaded_iff)

lemma is_email_downloaded_cong:
  "downloaded_emails s' = downloaded_emails s \<Longrightarrow>
     is_email_downloaded s' u g = is_email_downloaded s u g"
  by (simp add: is_email_downloaded_def)

lemma extract_email_data_eq:
  assumes "extract_email_data w m u f st = (x, st1)"
  shows "db st1 = db st" and "failed_emails st1 = failed_emails st"
    and "failed_folders st1 = failed_folders st" and "error_log st1 = error_log st"
  using assms extract_email_data_frame [of w m u f st] by simp_all

lemma get_or_create_email_eq:
  assumes "get_or_create_email s u f sb d bt bh ad mid = (x, s')"
  shows "downloaded_emails s' = downloaded_emails s"
    and "folder_uidvalidity s' = folder_uidvalidity s"
  using assms get_or_create_email_frame [of s u f sb d bt bh ad mid] by simp_all

text \<open>
  A message either fails in extraction, with the store untouched, or gets its raw record
  written; nothing else touches \<open>downloaded_emails\<close>, and nothing is queued inside.
\<close>

lemma process_message_result:
  assumes "process_message w f m st = (r, st')"
  shows "failed_emails st' = failed_emails st \<and> failed_folders st' = failed_folders st
       \<and> error_log st' = error_log st
       \<and> folder_uidvalidity (db st') = folder_uidvalidity (db st)
       \<and> ((\<exists>e. fst (extract_email_data w m (m_uid m) f st) = Inl e \<and> r = Some e
               \<and> db st' = db st)
          \<or> (\<exists>data. fst (extract_email_data w m (m_uid m) f st) = Inr data
               \<and> downloaded_emails (db st') =
                   downloaded_emails (mark_email_downloaded (db st)
                      (downloaded_row_of (m_uid m) f m data))))"
proof -
  obtain x st1 where ex: "extract_email_data w m (m_uid m) f st = (x, st1)"
    by (cases "extract_email_data w m (m_uid m) f st")
  note fr = extract_email_data_eq [OF ex]
  show ?thesis
  proof (cases x)
    case (Inl e)
    with assms ex fr show ?thesis
      by (auto simp: process_message_def)
  next
    case (Inr data)
    let ?s1 = "mark_email_downloaded (db st1) (downloaded_row_of (m_uid m) f m data)"
    obtain y s2 where ge: "get_or_create_email ?s1 (m_uid m) f (m_subject m) (m_date m)
        (m_text m) (m_html m) (first_attachment (ed_attachments data)) (ed_message_id data)
        = (y, s2)"
      by (cases "get_or_create_email ?s1 (m_uid m) f (m_subject m) (m_date m)
        (m_text m) (m_html m) (first_attachment (ed_attachments data)) (ed_message_id data)")
    note g = get_or_create_email_eq [OF ge]
    show ?thesis
    proof (cases y)
      case (Inl e)
      with assms ex Inr ge g fr show ?thesis
        by (auto simp: process_message_def Let_def)
    next
      case (Inr pk)
      with assms ex \<open>x = Inr data\<close> ge g fr show ?thesis
        by (auto simp: process_message_def Let_def)
    qed
  qed
qed


lemma process_message_persists:
  assumes "process_message w f m st = (r, st')" and "is_email_downloaded (db st) u g"
  shows "is_email_downloaded (db st') u g"
proof -
  from process_message_result [OF assms(1)]
  consider (fail) "db st' = db st"
    | (ok) data where "downloaded_emails (db st') =
        downloaded_emails (mark_email_downloaded (db st) (downloaded_row_of (m_uid m) f m data))"
    by blast
  then show ?thesis
  proof cases
    case fail
    with assms(2) show ?thesis by simp
  next
    case ok
    have "is_email_downloaded (db st') u g =
        is_email_downloaded (mark_email_downloaded (db st) (downloaded_row_of (m_uid m) f m data)) u g"
      using ok by (rule is_email_downloaded_cong)
    with assms(2) show ?thesis
      by (simp add: is_email_downloaded_mark)
  qed
qed

lemma process_message_success:
  assumes "process_message w f m st = (None, st')"
  shows "is_email_downloaded (db st') (m_uid m) f"
proof -
  from process_message_result [OF assms] obtain data where
    "downloaded_emails (db st') = downloaded_emails (mark_email_downloaded (db st)
        (downloaded_row_of (m_uid m) f m data))"
    by auto
  then have "is_email_downloaded (db st') (m_uid m) f =
      is_email_downloaded (mark_email_downloaded (db st) (downloaded_row_of (m_uid m) f m data))
        (m_uid m) f"
    by (rule is_email_downloaded_cong)
  then show ?thesis
    by (simp add: is_email_downloaded_mark downloaded_row_of_def)
qed


lemma process_messages_queue_grows:
  "set (failed_emails st) \<subseteq> set (failed_emails (process_messages w f ex ms st))"
proof (induction ms arbitrary: st)
  case Nil
  show ?case by simp
next
  case (Cons m ms)
  show ?case
  proof (cases "m_uid m \<in> set ex")
    case True
    with Cons.IH [of st] show ?thesis by simp
  next
    case False
    obtain r st' where pm: "process_message w f m st = (r, st')"
      by (cases "process_message w f m st")
    have q: "failed_emails st' = failed_emails st"
      using process_message_result [OF pm] by simp
    show ?thesis
    proof (cases r)
      case None
      with False pm q Cons.IH [of st'] show ?thesis by simp
    next
      case (Some e)
      with False pm q Cons.IH [of "log_error (m_uid m) f e st'"] show ?thesis by auto
    qed
  qed
qed

lemma process_messages_persists:
  "is_email_downloaded (db st) u g \<Longrightarrow>
     is_email_downloaded (db (process_messages w f ex ms st)) u g"
proof (induction ms arbitrary: st)
  case Nil
  then show ?case by simp
next
  case (Cons m ms)
  show ?case
  proof (cases "m_uid m \<in> set ex")
    case True
    with Cons show ?thesis by simp
  next
    case False
    obtain r st' where pm: "process_message w f m st = (r, st')"
      by (cases "process_message w f m st")
    have p: "is_email_downloaded (db st') u g"
      using process_message_persists [OF pm Cons.prems] .
    show ?thesis
    proof (cases r)
      case None
      with False pm Cons.IH [OF p] show ?thesis by simp
    next
      case (Some e)
      from p have "is_email_downloaded (db (log_error (m_uid m) f e st')) u g" by simp
      from Cons.IH [OF this] False pm Some show ?thesis by simp
    qed
  qed
qed

lemma process_messages_persisted_or_queued:
  assumes "m \<in> set ms" and "m_uid m \<notin> set ex"
  shows "is_email_downloaded (db (process_messages w f ex ms st)) (m_uid m) f
       \<or> (m_uid m, f) \<in> set (failed_emails (process_messages w f ex ms st))"
  using assms
proof (induction ms arbitrary: st)
  case Nil
  then show ?case by simp
next
  case (Cons a ms)
  obtain r st' where pm: "process_message w f a st = (r, st')"
    by (cases "process_message w f a st")
  show ?case
  proof (cases "m = a")
    case True
    show ?thesis
    proof (cases r)
      case None
      have "is_email_downloaded (db st') (m_uid m) f"
        using process_message_success pm None True by blast
      then have "is_email_downloaded (db (process_messages w f ex ms st')) (m_uid m) f"
        by (rule process_messages_persists)
      with True Cons.prems(2) pm None show ?thesis by simp
    next
      case (Some e)
      have "(m_uid m, f) \<in> set (failed_emails (log_error (m_uid a) f e st'))"
        using True by simp
      then have "(m_uid m, f) \<in> set (failed_emails
          (process_messages w f ex ms (log_error (m_uid a) f e st')))"
        using process_messages_queue_grows by blast
      with True Cons.prems(2) pm Some show ?thesis by simp
    qed
  next
    case False
    with Cons.prems have mem: "m \<in> set ms" by simp
    show ?thesis
    proof (cases "m_uid a \<in> set ex")
      case True
      with Cons.IH [OF mem Cons.prems(2), of st] show ?thesis by simp
    next
      case notex: False
      show ?thesis
      proof (cases r)
        case None
        with notex pm Cons.IH [OF mem Cons.prems(2), of st'] show ?thesis by simp
      next
        case (Some e)
        with notex pm Cons.IH [OF mem Cons.prems(2), of "log_error (m_uid a) f e st'"]
        show ?thesis by simp
      qed
    qed
  qed
qed

section \<open>The sender link of a message without Message-ID\<close>

text \<open>
  Claim C9, evaluated on a mailbox whose only message has the sender \<open>ann@ex.com\<close> and no
  Message-ID header: the run stores the raw record and the Message row with key 1, the
  lookup of that row raises \<open>TypeError\<close>, and no Participation row is written, so the
  message has a known sender and no \<open>from\<close> row.
\<close>

theorem C9_known_sender_without_from_row:
  "map_option
     (\<lambda>r. (map d_sender (downloaded_emails (db r)), map e_pk (email (db r)),
           email_participant (db r), error_log r))
     (main 3 (steady_world no_message_id_mailbox) empty_store) =
   Some ([''ann@ex.com''], [1], [], [(12, ''INBOX'', TypeError)])"
  by code_simp

section \<open>The backfill pass\<close>

lemma migration_get_or_create_email_result:
  "\<exists>pk new. migration_get_or_create_email s row = (Inr pk, s\<lparr>email := email s @ [new]\<rparr>)"
proof -
  let ?new = "\<lparr>e_pk = next_rowid (map e_pk (email s)), e_uid = d_uid row,
                 e_folder = d_folder row, e_subject = d_subject row, e_date = d_date row,
                 e_body_text = d_body_text row, e_body_html = d_body_html row,
                 e_attachment_dir = d_attachment_dir row, e_message_id = None\<rparr>"
  let ?hits = "filter (\<lambda>r. e_uid r = d_uid row \<and> e_folder r = d_folder row) (email s @ [?new])"
  have "?new \<in> set ?hits" by simp
  then obtain r rs where "?hits = r # rs"
    by (cases ?hits) auto
  then have "migration_get_or_create_email s row = (Inr (e_pk r), s\<lparr>email := email s @ [?new]\<rparr>)"
    by (simp add: migration_get_or_create_email_def Let_def)
  then show ?thesis by blast
qed

lemma migration_link_frame [simp]:
  "downloaded_emails (migration_link s pk a role) = downloaded_emails s"
  "email (migration_link s pk a role) = email s"
  by (auto simp: migration_link_def split: prod.splits option.splits
      dest: get_or_create_email_address_eq)

lemma migration_links_frame [simp]:
  "downloaded_emails (migration_links s pk as role) = downloaded_emails s"
  "email (migration_links s pk as role) = email s"
  by (induction as arbitrary: s) simp_all

lemma migration_rows_result:
  "\<exists>s'. migration_rows rows s = Inr s' \<and> downloaded_emails s' = downloaded_emails s
        \<and> length (email s') = length (email s) + length rows"
proof (induction rows arbitrary: s)
  case Nil
  show ?case by simp
next
  case (Cons row rows)
  obtain pk new where g: "migration_get_or_create_email s row = (Inr pk, s\<lparr>email := email s @ [new]\<rparr>)"
    using migration_get_or_create_email_result by blast
  let ?s1 = "s\<lparr>email := email s @ [new]\<rparr>"
  let ?s5 = "migration_links
      (migration_links
        (migration_links (migration_link ?s1 pk (d_sender row) ''from'') pk
           (migration_parse_recipients (d_recipients row)) ''to'') pk
        (migration_parse_recipients (d_cc row)) ''cc'') pk
      (migration_parse_recipients (d_bcc row)) ''bcc''"
  from Cons.IH [of ?s5] obtain s' where
    r: "migration_rows rows ?s5 = Inr s'" and
    d: "downloaded_emails s' = downloaded_emails ?s5" and
    l: "length (email s') = length (email ?s5) + length rows"
    by blast
  have "migration_rows (row # rows) s = Inr s'"
    using g r by (simp add: Let_def)
  moreover have "downloaded_emails s' = downloaded_emails s"
    using d by simp
  moreover have "length (email s') = length (email s) + length (row # rows)"
    using l by simp
  ultimately show ?case by blast
qed

text \<open>
  Claim C8, as the code behaves: the backfill pass never fails, and every run of it adds
  one \<open>email\<close> row for each row of \<open>downloaded_emails\<close>, the second run like the first.
\<close>

theorem C8_backfill_inserts_email_rows_again:
  "\<exists>s1 s2. migration_main s = Inr s1 \<and> migration_main s1 = Inr s2
     \<and> downloaded_emails s1 = downloaded_emails s
     \<and> length (email s1) = length (email s) + length (downloaded_emails s)
     \<and> length (email s2) = length (email s1) + length (downloaded_emails s)"
proof -
  from migration_rows_result [of "downloaded_emails s" s] obtain s1 where
    1: "migration_main s = Inr s1" "downloaded_emails s1 = downloaded_emails s"
       "length (email s1) = length (email s) + length (downloaded_emails s)"
    by (auto simp: migration_main_def)
  from migration_rows_result [of "downloaded_emails s1" s1] obtain s2 where
    2: "migration_main s1 = Inr s2"
       "length (email s2) = length (email s1) + length (downloaded_emails s1)"
    by (auto simp: migration_main_def)
  from 1 2 show ?thesis by auto
qed

text \<open>
  On a store with one raw record the second run adds the \<open>email\<close> row with key 2 and no
  \<open>email_participant\<close> row.
\<close>

lemma backfill_example:
  "(case migration_main one_raw_record_store of
      Inl e \<Rightarrow> None
    | Inr s1 \<Rightarrow>
        (case migration_main s1 of
           Inl e \<Rightarrow> None
         | Inr s2 \<Rightarrow> Some (map e_pk (email s1), map e_pk (email s2),
                           email_participant s1, email_participant s2))) =
   Some ([1], [1, 2],
         [(1, 1, ''from''), (1, 2, ''to''), (1, 3, ''to'')],
         [(1, 1, ''from''), (1, 2, ''to''), (1, 3, ''to'')])"
  by code_simp

section \<open>The shape of a run\<close>

lemma main_after_folders:
  assumes "login w 0 = None" and "folder_list w 1 = Inr fs"
    and "process_folders w fs (tick ListFolders (tick Login (initial_state s0))) = (oc, st2)"
  shows "main fuel w s0 =
     (case oc of Crashed e \<Rightarrow> Some st2 | Completed \<Rightarrow> retry_failed_emails fuel w 0 st2
      | Halted \<Rightarrow> retry_failed_emails fuel w 0 st2)"
proof -
  have c: "clock (tick Login (initial_state s0)) = 1"
    by (simp add: initial_state_def)
  show ?thesis
    unfolding main_def Let_def c using assms
    by (simp del: process_folders.simps split: outcome.splits)
qed

section \<open>The retry loop on a message that keeps failing\<close>

lemma broken_disk_retry_requeues:
  "failed_emails (retry_email broken_disk_world 1 ''Archive'' st) =
     failed_emails st @ [(1, ''Archive'')]"
  by (simp add: retry_email_def broken_disk_world_def steady_world_def
      two_folder_mailbox_def do_fetch_def extract_email_data_def example_message_def
      select_messages_def)

lemma broken_disk_retry_never_ends:
  "list_all (\<lambda>x. x = (1, ''Archive'')) (failed_emails st) \<Longrightarrow> i < length (failed_emails st)
     \<Longrightarrow> retry_failed_emails fuel broken_disk_world i st = None"
proof (induction fuel arbitrary: i st)
  case 0
  then show ?case by simp
next
  case (Suc fuel)
  from Suc.prems have at: "failed_emails st ! i = (1, ''Archive'')"
    by (simp add: list_all_length)
  let ?st' = "retry_email broken_disk_world 1 ''Archive'' st"
  have q: "failed_emails ?st' = failed_emails st @ [(1, ''Archive'')]"
    by (rule broken_disk_retry_requeues)
  have "list_all (\<lambda>x. x = (1, ''Archive'')) (failed_emails ?st')"
    using Suc.prems(1) q by simp
  moreover have "Suc i < length (failed_emails ?st')"
    using Suc.prems(2) q by simp
  ultimately have "retry_failed_emails fuel broken_disk_world (Suc i) ?st' = None"
    by (rule Suc.IH)
  with Suc.prems(2) at show ?case by simp
qed

lemma broken_disk_folders_done:
  "fst (process_folders broken_disk_world [''Archive'', ''INBOX'']
          (tick ListFolders (tick Login (initial_state empty_store)))) = Completed
   \<and> failed_emails broken_disk_after_folders = [(1, ''Archive'')]"
  by code_simp

text \<open>
  Claim C4, evaluated on the two-folder mailbox behind a file system on which saving
  attachments always fails: the message of \<open>Archive\<close> is queued in the main pass, every
  retry of it fails and queues it once more, and the retry pass is not finished after any
  number of iterations, so the run never returns.
\<close>

theorem C4_retry_pass_does_not_terminate:
  "\<forall>fuel. main fuel broken_disk_world empty_store = None"
proof
  fix fuel
  have pf: "process_folders broken_disk_world [''Archive'', ''INBOX'']
          (tick ListFolders (tick Login (initial_state empty_store))) =
        (Completed, broken_disk_after_folders)"
    using broken_disk_folders_done
    by (simp add: broken_disk_after_folders_def prod_eq_iff)
  have lg: "login broken_disk_world 0 = None"
    by (simp add: broken_disk_world_def steady_world_def)
  have fl: "folder_list broken_disk_world 1 = Inr [''Archive'', ''INBOX'']"
    by (simp add: broken_disk_world_def steady_world_def two_folder_mailbox_def)
  have "main fuel broken_disk_world empty_store =
      retry_failed_emails fuel broken_disk_world 0 broken_disk_after_folders"
    using main_after_folders [OF lg fl pf] by simp
  also have "\<dots> = None"
    using broken_disk_folders_done by (intro broken_disk_retry_never_ends) simp_all
  finally show "main fuel broken_disk_world empty_store = None" .
qed

section \<open>Folder-level retry\<close>

lemma folder_retry_loop_unrolled:
  "folder_retry_loop w folder 0 st =
     (case folder_attempt w folder st of
        (None, s1) \<Rightarrow> s1
      | (Some e1, s1) \<Rightarrow>
          (case folder_attempt w folder (tick (Sleep 5) s1) of
             (None, s2) \<Rightarrow> s2
           | (Some e2, s2) \<Rightarrow>
               (case folder_attempt w folder (tick (Sleep 5) s2) of
                  (None, s3) \<Rightarrow> s3
                | (Some e3, s3) \<Rightarrow> s3\<lparr>failed_folders := failed_folders s3 @ [folder]\<rparr>)))"
proof -
  have l3: "folder_retry_loop w folder (Suc (Suc (Suc 0))) s = s" for s
    by (simp add: folder_retry_loop.simps [of w folder "Suc (Suc (Suc 0))"] retry_limit_def)
  have l2: "folder_retry_loop w folder (Suc (Suc 0)) s =
      (case folder_attempt w folder s of
         (None, s') \<Rightarrow> s'
       | (Some e, s') \<Rightarrow> s'\<lparr>failed_folders := failed_folders s' @ [folder]\<rparr>)" for s
    by (simp add: folder_retry_loop.simps [of w folder "Suc (Suc 0)"] retry_limit_def l3
        numeral_3_eq_3 split: prod.splits option.splits)
  have l1: "folder_retry_loop w folder (Suc 0) s =
      (case folder_attempt w folder s of
         (None, s') \<Rightarrow> s'
       | (Some e, s') \<Rightarrow> folder_retry_loop w folder (Suc (Suc 0)) (tick (Sleep 5) s'))" for s
    by (simp add: folder_retry_loop.simps [of w folder "Suc 0"] retry_limit_def
        numeral_3_eq_3 split: prod.splits option.splits)
  have l0: "folder_retry_loop w folder 0 s =
      (case folder_attempt w folder s of
         (None, s') \<Rightarrow> s'
       | (Some e, s') \<Rightarrow> folder_retry_loop w folder (Suc 0) (tick (Sleep 5) s'))" for s
    by (simp add: folder_retry_loop.simps [of w folder 0] retry_limit_def
        numeral_3_eq_3 split: prod.splits option.splits)
  show ?thesis
    by (simp add: l0 l1 l2 split: prod.splits option.splits)
qed

text \<open>
  Claim C6. The retry loop of a folder makes at most three attempts, sleeps five seconds
  after a failed first and a failed second attempt, and records the folder as failed after
  a failed third one. When all three attempts of a folder fail, the folder is appended to
  \<open>failed_folders\<close> and the driver goes on with the folders after it.
\<close>

theorem C6_folder_retry_exhaustion:
  assumes noskip: "lower folder \<notin> set skip_folders"
      and valid: "ensure_folder_and_uidvalidity w folder st0 = (None, st)"
      and a1: "folder_attempt w folder st = (Some e1, s1)"
      and a2: "folder_attempt w folder (tick (Sleep 5) s1) = (Some e2, s2)"
      and a3: "folder_attempt w folder (tick (Sleep 5) s2) = (Some e3, s3)"
  shows "folder_retry_loop w folder 0 st0 =
           (case folder_attempt w folder st0 of
              (None, t1) \<Rightarrow> t1
            | (Some x1, t1) \<Rightarrow>
                (case folder_attempt w folder (tick (Sleep 5) t1) of
                   (None, t2) \<Rightarrow> t2
                 | (Some x2, t2) \<Rightarrow>
                     (case folder_attempt w folder (tick (Sleep 5) t2) of
                        (None, t3) \<Rightarrow> t3
                      | (Some x3, t3) \<Rightarrow>
                          t3\<lparr>failed_folders := failed_folders t3 @ [folder]\<rparr>)))
       \<and> folder_retry_loop w folder 0 st = s3\<lparr>failed_folders := failed_folders s3 @ [folder]\<rparr>
       \<and> process_folders w (folder # rest) st0 =
           process_folders w rest (s3\<lparr>failed_folders := failed_folders s3 @ [folder]\<rparr>)"
proof -
  have loop: "folder_retry_loop w folder 0 st = s3\<lparr>failed_folders := failed_folders s3 @ [folder]\<rparr>"
    by (simp add: folder_retry_loop_unrolled a1 a2 a3)
  with noskip valid folder_retry_loop_unrolled [of w folder st0] show ?thesis by simp
qed

lemma unreachable_archive_run:
  "ensure_folder_and_uidvalidity unreachable_archive_world ''Archive'' unreachable_start =
     (None, unreachable_checked)
   \<and> folder_attempt unreachable_archive_world ''Archive'' unreachable_checked =
     (Some ImapError, unreachable_attempt1)
   \<and> folder_attempt unreachable_archive_world ''Archive'' (tick (Sleep 5) unreachable_attempt1) =
     (Some ImapError, unreachable_attempt2)
   \<and> folder_attempt unreachable_archive_world ''Archive'' (tick (Sleep 5) unreachable_attempt2) =
     (Some ImapError, unreachable_attempt3)"
  by code_simp

lemma unreachable_archive_outcome:
  "lower ''Archive'' \<notin> set skip_folders
   \<and> trace unreachable_attempt3 =
       [Login, ListFolders, Status ''Archive'', Fetch ''Archive'' AllMessages, Sleep 5,
        Fetch ''Archive'' AllMessages, Sleep 5, Fetch ''Archive'' AllMessages]
   \<and> failed_folders unreachable_attempt3 = []
   \<and> (case process_folders unreachable_archive_world [''INBOX'']
             (unreachable_attempt3\<lparr>failed_folders :=
                failed_folders unreachable_attempt3 @ [''Archive'']\<rparr>) of
        (oc, st) \<Rightarrow> (oc, failed_folders st, map d_uid (downloaded_emails (db st)))) =
       (Completed, [''Archive''], [1, 2])"
  by code_simp

theorem C6_folder_retry_exhaustion_witness:
  "lower ''Archive'' \<notin> set skip_folders
   \<and> folder_retry_loop unreachable_archive_world ''Archive'' 0 unreachable_checked =
       unreachable_attempt3\<lparr>failed_folders := failed_folders unreachable_attempt3 @ [''Archive'']\<rparr>
   \<and> trace unreachable_attempt3 =
       [Login, ListFolders, Status ''Archive'', Fetch ''Archive'' AllMessages, Sleep 5,
        Fetch ''Archive'' AllMessages, Sleep 5, Fetch ''Archive'' AllMessages]
   \<and> (case process_folders unreachable_archive_world [''Archive'', ''INBOX''] unreachable_start of
        (oc, st) \<Rightarrow> (oc, failed_folders st, map d_uid (downloaded_emails (db st)))) =
       (Completed, [''Archive''], [1, 2])"
proof -
  have noskip: "lower ''Archive'' \<notin> set skip_folders"
    using unreachable_archive_outcome by blast
  from unreachable_archive_run have
    v: "ensure_folder_and_uidvalidity unreachable_archive_world ''Archive'' unreachable_start =
          (None, unreachable_checked)" and
    a1: "folder_attempt unreachable_archive_world ''Archive'' unreachable_checked =
          (Some ImapError, unreachable_attempt1)" and
    a2: "folder_attempt unreachable_archive_world ''Archive'' (tick (Sleep 5) unreachable_attempt1) =
          (Some ImapError, unreachable_attempt2)" and
    a3: "folder_attempt unreachable_archive_world ''Archive'' (tick (Sleep 5) unreachable_attempt2) =
          (Some ImapError, unreachable_attempt3)"
    by blast+
  note ex = C6_folder_retry_exhaustion [OF noskip v a1 a2 a3, of "[''INBOX'']"]
  from ex have pf:
    "process_folders unreachable_archive_world [''Archive'', ''INBOX''] unreachable_start =
       process_folders unreachable_archive_world [''INBOX'']
         (unreachable_attempt3\<lparr>failed_folders :=
            failed_folders unreachable_attempt3 @ [''Archive'']\<rparr>)"
    by blast
  from ex have loop:
    "folder_retry_loop unreachable_archive_world ''Archive'' 0 unreachable_checked =
       unreachable_attempt3\<lparr>failed_folders := failed_folders unreachable_attempt3 @ [''Archive'']\<rparr>"
    by blast
  show ?thesis
    unfolding pf using loop unreachable_archive_outcome by blast
qed

section \<open>The highest stored UID\<close>

lemma get_max_uid_None:
  "(get_max_uid s f = None) = (get_existing_uids s f = [])"
  by (simp add: get_max_uid_def split: list.splits)

lemma get_max_uid_Max:
  "get_existing_uids s f \<noteq> [] \<Longrightarrow> get_max_uid s f = Some (Max (set (get_existing_uids s f)))"
  by (cases "get_existing_uids s f") (simp_all add: get_max_uid_def Max.set_eq_fold [symmetric])

lemma get_max_uid_Some:
  "(get_max_uid s f = Some U) =
     (U \<in> set (get_existing_uids s f) \<and> (\<forall>u \<in> set (get_existing_uids s f). u \<le> U))"
proof (cases "get_existing_uids s f = []")
  case True
  then show ?thesis by (simp add: get_max_uid_def)
next
  case False
  then have ne: "set (get_existing_uids s f) \<noteq> {}" by simp
  have "(Max (set (get_existing_uids s f)) = U) =
      (U \<in> set (get_existing_uids s f) \<and> (\<forall>u \<in> set (get_existing_uids s f). u \<le> U))"
    using ne by (auto intro: Max_eqI)
  with get_max_uid_Max [OF False] show ?thesis by simp
qed

lemma existing_uids_iff:
  "(u \<in> set (get_existing_uids s f)) = is_email_downloaded s u f"
  by (auto simp: get_existing_uids_def is_email_downloaded_iff)

section \<open>How the store evolves\<close>

lemma evolves_refl [simp]: "evolves s s"
  by (simp add: evolves_def)

lemma evolves_trans [trans]:
  assumes "evolves s s'" and "evolves s' s''"
  shows "evolves s s''"
proof -
  from assms obtain d1 d2 e1 e2 a1 a2 p1 p2 where
    "downloaded_emails s' = downloaded_emails s @ d1"
    "downloaded_emails s'' = downloaded_emails s' @ d2"
    "email s' = email s @ e1" "email s'' = email s' @ e2"
    "email_address s' = email_address s @ a1" "email_address s'' = email_address s' @ a2"
    "email_participant s' = email_participant s @ p1"
    "email_participant s'' = email_participant s' @ p2"
    unfolding evolves_def by blast
  then have "downloaded_emails s'' = downloaded_emails s @ (d1 @ d2)"
    and "email s'' = email s @ (e1 @ e2)"
    and "email_address s'' = email_address s @ (a1 @ a2)"
    and "email_participant s'' = email_participant s @ (p1 @ p2)"
    by simp_all
  then have "\<exists>more. downloaded_emails s'' = downloaded_emails s @ more"
    and "\<exists>more. email s'' = email s @ more"
    and "\<exists>more. email_address s'' = email_address s @ more"
    and "\<exists>more. email_participant s'' = email_participant s @ more"
    by blast+
  moreover from assms have "distinct (raw_keys s) \<longrightarrow> distinct (raw_keys s'')"
    and "distinct (email_participant s) \<longrightarrow> distinct (email_participant s'')"
    and "\<forall>f v. get_uidvalidity s f = Some v \<longrightarrow> get_uidvalidity s'' f = Some v"
    by (simp_all add: evolves_def)
  ultimately show ?thesis
    unfolding evolves_def by blast
qed

lemma evolves_downloaded:
  "evolves s s' \<Longrightarrow> is_email_downloaded s u f \<Longrightarrow> is_email_downloaded s' u f"
  by (auto simp: evolves_def is_email_downloaded_iff)

lemma evolves_uidvalidity:
  "evolves s s' \<Longrightarrow> get_uidvalidity s f = Some v \<Longrightarrow> get_uidvalidity s' f = Some v"
  by (simp add: evolves_def)

lemma evolves_distinct:
  "evolves s s' \<Longrightarrow> distinct (email_participant s) \<Longrightarrow> distinct (email_participant s')"
  by (simp add: evolves_def)

lemma evolves_raw_keys:
  "evolves s s' \<Longrightarrow> distinct (raw_keys s) \<Longrightarrow> distinct (raw_keys s')"
  by (simp add: evolves_def)


lemma evolves_max_uid:
  assumes "evolves s s'" and "get_max_uid s f = Some U"
  shows "\<exists>U'. get_max_uid s' f = Some U' \<and> U \<le> U'"
proof -
  from assms(2) have "U \<in> set (get_existing_uids s f)"
    by (simp add: get_max_uid_Some)
  then have in': "U \<in> set (get_existing_uids s' f)"
    using evolves_downloaded [OF assms(1)] by (simp add: existing_uids_iff)
  then have "get_existing_uids s' f \<noteq> []" by auto
  from get_max_uid_Max [OF this] in' show ?thesis
    by (auto intro: Max_ge)
qed

lemma evolvesI:
  assumes "\<exists>more. downloaded_emails s' = downloaded_emails s @ more"
    and "\<exists>more. email s' = email s @ more"
    and "\<exists>more. email_address s' = email_address s @ more"
    and "\<exists>more. email_participant s' = email_participant s @ more"
    and "distinct (raw_keys s) \<Longrightarrow> distinct (raw_keys s')"
    and "distinct (email_participant s) \<Longrightarrow> distinct (email_participant s')"
    and "folder_uidvalidity s' = folder_uidvalidity s"
  shows "evolves s s'"
  using assms unfolding evolves_def get_uidvalidity_def by simp

lemma raw_keys_mark:
  "distinct (raw_keys s) \<Longrightarrow> distinct (raw_keys (mark_email_downloaded s r))"
  by (auto simp: raw_keys_def mark_email_downloaded_def is_email_downloaded_iff)

lemma evolves_mark: "evolves s (mark_email_downloaded s r)"
proof (rule evolvesI)
  show "\<exists>more. downloaded_emails (mark_email_downloaded s r) = downloaded_emails s @ more"
    by (simp add: mark_email_downloaded_def)
  show "distinct (raw_keys s) \<Longrightarrow> distinct (raw_keys (mark_email_downloaded s r))"
    by (rule raw_keys_mark)
qed simp_all

lemma get_or_create_email_row:
  "\<exists>more. email (snd (get_or_create_email s u f sb d bt bh ad mid)) = email s @ more"
  by (simp add: get_or_create_email_def Let_def split: list.splits)

lemma evolves_get_or_create_email:
  "evolves s (snd (get_or_create_email s u f sb d bt bh ad mid))"
proof (rule evolvesI)
  show "\<exists>more. email (snd (get_or_create_email s u f sb d bt bh ad mid)) = email s @ more"
    by (rule get_or_create_email_row)
qed (simp_all add: raw_keys_def)

lemma email_participant_insert:
  "distinct (email_participant s) \<Longrightarrow> distinct (email_participant (insert_participant s t))"
  by (simp add: insert_participant_def)

lemma insert_participant_rows:
  "email_address (insert_participant s t) = email_address s"
  "\<exists>more. email_participant (insert_participant s t) = email_participant s @ more"
  by (simp_all add: insert_participant_def)

lemma get_or_create_email_address_rows:
  assumes "get_or_create_email_address s a = (r, s')"
  shows "\<exists>more. email_address s' = email_address s @ more"
  using assms
  by (auto simp: get_or_create_email_address_def Let_def split: if_splits option.splits)

lemma evolves_add_participant: "evolves s (add_participant s pk a role)"
proof -
  obtain r s' where g: "get_or_create_email_address s a = (r, s')"
    by (cases "get_or_create_email_address s a")
  note fr = get_or_create_email_address_eq [OF g]
  from get_or_create_email_address_rows [OF g] obtain more where
    ad: "email_address s' = email_address s @ more" ..
  show ?thesis
  proof (rule evolvesI)
    show "\<exists>more. downloaded_emails (add_participant s pk a role) = downloaded_emails s @ more"
      by simp
    show "\<exists>more. email (add_participant s pk a role) = email s @ more"
      by simp
    show "folder_uidvalidity (add_participant s pk a role) = folder_uidvalidity s"
      by simp
    show "distinct (raw_keys s) \<Longrightarrow> distinct (raw_keys (add_participant s pk a role))"
      by (simp add: raw_keys_def)
    show "\<exists>more. email_address (add_participant s pk a role) = email_address s @ more"
      using g ad by (cases r) (simp_all add: add_participant_def insert_participant_rows)
    show "\<exists>more. email_participant (add_participant s pk a role) = email_participant s @ more"
      using g fr(4) insert_participant_rows(2) [of s']
      by (cases r) (simp_all add: add_participant_def)
    assume d: "distinct (email_participant s)"
    with fr(4) have "distinct (email_participant s')" by simp
    with g show "distinct (email_participant (add_participant s pk a role))"
      by (cases r) (simp_all add: add_participant_def email_participant_insert)
  qed
qed

lemma evolves_add_participants: "evolves s (add_participants s pk as role)"
proof (induction as arbitrary: s)
  case Nil
  show ?case by simp
next
  case (Cons a as)
  from evolves_add_participant [of s pk a role] Cons [of "add_participant s pk a role"]
  show ?case by (simp add: evolves_trans)
qed

lemma map_of_replace:
  "map_of (filter (\<lambda>kv. fst kv \<noteq> g) xs @ [(g, v)]) f = (if f = g then Some v else map_of xs f)"
  by (induction xs) auto

lemma get_uidvalidity_set:
  "get_uidvalidity (set_uidvalidity s g v) f = (if f = g then Some v else get_uidvalidity s f)"
  by (simp add: get_uidvalidity_def set_uidvalidity_def map_of_replace del: map_of_append)

lemma evolves_set_uidvalidity:
  "get_uidvalidity s g = None \<Longrightarrow> evolves s (set_uidvalidity s g v)"
  by (auto simp: evolves_def raw_keys_def get_uidvalidity_set)

lemma evolves_process_message:
  assumes "process_message w f m st = (r, st')"
  shows "evolves (db st) (db st')"
proof -
  obtain x st1 where ex: "extract_email_data w m (m_uid m) f st = (x, st1)"
    by (cases "extract_email_data w m (m_uid m) f st")
  have d1: "db st1 = db st"
    using extract_email_data_eq(1) [OF ex] .
  show ?thesis
  proof (cases x)
    case (Inl e)
    with assms ex d1 show ?thesis by (auto simp: process_message_def)
  next
    case (Inr data)
    let ?s1 = "mark_email_downloaded (db st) (downloaded_row_of (m_uid m) f m data)"
    obtain y s2 where ge: "get_or_create_email ?s1 (m_uid m) f (m_subject m) (m_date m)
        (m_text m) (m_html m) (first_attachment (ed_attachments data)) (ed_message_id data)
        = (y, s2)"
      by (cases "get_or_create_email ?s1 (m_uid m) f (m_subject m) (m_date m)
        (m_text m) (m_html m) (first_attachment (ed_attachments data)) (ed_message_id data)")
    have "evolves ?s1 s2"
      using evolves_get_or_create_email [of ?s1 "m_uid m" f "m_subject m" "m_date m"
          "m_text m" "m_html m" "first_attachment (ed_attachments data)" "ed_message_id data"]
      by (simp add: ge)
    with evolves_mark have e2: "evolves (db st) s2"
      by (rule evolves_trans)
    show ?thesis
    proof (cases y)
      case (Inl e)
      with assms ex Inr d1 ge have "db st' = s2"
        by (auto simp: process_message_def Let_def)
      with e2 show ?thesis by simp
    next
      case (Inr pk)
      let ?s6 = "add_participants
          (add_participants
            (add_participants (add_participant s2 pk (m_from m) ''from'') pk
               (parse_recipients (Tup (m_to m))) ''to'') pk
            (parse_recipients (Tup (m_cc m))) ''cc'') pk
          (parse_recipients (Tup (m_bcc m))) ''bcc''"
      have "evolves s2 (add_participant s2 pk (m_from m) ''from'')"
        by (rule evolves_add_participant)
      also have "evolves \<dots> (add_participants \<dots> pk (parse_recipients (Tup (m_to m))) ''to'')"
        by (rule evolves_add_participants)
      also have "evolves \<dots> (add_participants \<dots> pk (parse_recipients (Tup (m_cc m))) ''cc'')"
        by (rule evolves_add_participants)
      also have "evolves \<dots> (add_participants \<dots> pk (parse_recipients (Tup (m_bcc m))) ''bcc'')"
        by (rule evolves_add_participants)
      finally have "evolves s2 ?s6" .
      with e2 have e6: "evolves (db st) ?s6" by (rule evolves_trans)
      from assms ex \<open>x = Inr data\<close> d1 ge Inr have "db st' = ?s6"
        by (auto simp: process_message_def Let_def)
      with e6 show ?thesis by simp
    qed
  qed
qed

section \<open>How the store evolves during a run\<close>

lemma evolves_process_messages:
  "evolves (db st) (db (process_messages w f ex ms st))"
proof (induction ms arbitrary: st)
  case Nil
  show ?case by simp
next
  case (Cons m ms)
  show ?case
  proof (cases "m_uid m \<in> set ex")
    case True
    with Cons [of st] show ?thesis by simp
  next
    case False
    obtain r st' where pm: "process_message w f m st = (r, st')"
      by (cases "process_message w f m st")
    note e = evolves_process_message [OF pm]
    show ?thesis
    proof (cases r)
      case None
      with False pm evolves_trans [OF e Cons [of st']] show ?thesis by simp
    next
      case (Some x)
      have "evolves (db st) (db (log_error (m_uid m) f x st'))"
        using e by simp
      from evolves_trans [OF this Cons [of "log_error (m_uid m) f x st'"]] False pm Some
      show ?thesis by simp
    qed
  qed
qed

lemma do_fetch_eq:
  assumes "do_fetch w f c st = (r, st')"
  shows "db st' = db st" and "failed_emails st' = failed_emails st"
    and "failed_folders st' = failed_folders st" and "error_log st' = error_log st"
    and "trace st' = trace st @ [Fetch f c]" and "r = fetch w (clock st) f c"
  using assms by (auto simp: do_fetch_def)

lemma evolves_process_batches:
  "evolves (db st) (db (snd (process_batches w f ex bs st)))"
proof (induction bs arbitrary: st)
  case Nil
  show ?case by simp
next
  case (Cons b bs)
  show ?case
  proof (cases "list_all (\<lambda>uid. uid \<in> set ex) b")
    case True
    with Cons [of st] show ?thesis by simp
  next
    case False
    obtain r st' where fe: "do_fetch w f (UidIn b) st = (r, st')"
      by (cases "do_fetch w f (UidIn b) st")
    note d = do_fetch_eq(1) [OF fe]
    show ?thesis
    proof (cases r)
      case (Inl e)
      with False fe d show ?thesis by simp
    next
      case (Inr ms)
      have "evolves (db st) (db (process_messages w f ex ms st'))"
        using evolves_process_messages [of st' w f ex ms] d by simp
      from evolves_trans [OF this Cons [of "process_messages w f ex ms st'"]] False fe Inr
      show ?thesis by simp
    qed
  qed
qed

lemma evolves_folder_attempt:
  "evolves (db st) (db (snd (folder_attempt w f st)))"
proof -
  obtain r st1 where fe:
    "do_fetch w f (enumeration_criteria (get_max_uid (db st) f)) st = (r, st1)"
    by (cases "do_fetch w f (enumeration_criteria (get_max_uid (db st) f)) st")
  note d = do_fetch_eq(1) [OF fe]
  show ?thesis
  proof (cases r)
    case (Inl e)
    with fe d show ?thesis by (simp add: folder_attempt_def)
  next
    case (Inr ms)
    with fe d evolves_process_batches [of st1 w f "get_existing_uids (db st1) f"
        "split_into_batches (map m_uid ms) 10"]
    show ?thesis by (simp add: folder_attempt_def Let_def)
  qed
qed

lemma evolves_folder_retry_loop:
  "evolves (db st) (db (folder_retry_loop w f 0 st))"
proof -
  obtain r1 s1 where a1: "folder_attempt w f st = (r1, s1)"
    by (cases "folder_attempt w f st")
  obtain r2 s2 where a2: "folder_attempt w f (tick (Sleep 5) s1) = (r2, s2)"
    by (cases "folder_attempt w f (tick (Sleep 5) s1)")
  obtain r3 s3 where a3: "folder_attempt w f (tick (Sleep 5) s2) = (r3, s3)"
    by (cases "folder_attempt w f (tick (Sleep 5) s2)")
  have e1: "evolves (db st) (db s1)"
    using evolves_folder_attempt [of st w f] a1 by simp
  have "evolves (db s1) (db s2)"
    using evolves_folder_attempt [of "tick (Sleep 5) s1" w f] a2 by simp
  with e1 have e2: "evolves (db st) (db s2)" by (rule evolves_trans)
  have "evolves (db s2) (db s3)"
    using evolves_folder_attempt [of "tick (Sleep 5) s2" w f] a3 by simp
  with e2 have e3: "evolves (db st) (db s3)" by (rule evolves_trans)
  show ?thesis
    using a1 a2 a3 e1 e2 e3
    by (cases r1; cases r2; cases r3) (simp_all add: folder_retry_loop_unrolled)
qed

lemma evolves_ensure:
  "evolves (db st) (db (snd (ensure_folder_and_uidvalidity w f st)))"
  by (auto simp: ensure_folder_and_uidvalidity_def Let_def evolves_set_uidvalidity
      split: sum.splits option.splits prod.splits)

lemma evolves_process_folders:
  "evolves (db st) (db (snd (process_folders w fs st)))"
proof (induction fs arbitrary: st)
  case Nil
  show ?case by simp
next
  case (Cons f fs)
  show ?case
  proof (cases "lower f \<in> set skip_folders")
    case True
    with Cons [of st] show ?thesis by simp
  next
    case False
    obtain r st1 where en: "ensure_folder_and_uidvalidity w f st = (r, st1)"
      by (cases "ensure_folder_and_uidvalidity w f st")
    have e1: "evolves (db st) (db st1)"
      using evolves_ensure [of st w f] en by simp
    show ?thesis
    proof (cases r)
      case (Some e)
      with False en e1 show ?thesis by simp
    next
      case None
      have "evolves (db st1) (db (folder_retry_loop w f 0 st1))"
        by (rule evolves_folder_retry_loop)
      with e1 have "evolves (db st) (db (folder_retry_loop w f 0 st1))"
        by (rule evolves_trans)
      from evolves_trans [OF this Cons [of "folder_retry_loop w f 0 st1"]] False en None
      show ?thesis by simp
    qed
  qed
qed

lemma retry_email_db:
  "db (retry_email w u f st) = db st
   \<or> (\<exists>r. db (retry_email w u f st) = mark_email_downloaded (db st) r)"
proof (cases "login w (clock st)")
  case (Some e)
  then show ?thesis by (simp add: retry_email_def)
next
  case None
  obtain r st2 where fe: "do_fetch w f (UidIn [u]) (tick Login st) = (r, st2)"
    by (cases "do_fetch w f (UidIn [u]) (tick Login st)")
  have st2: "db st2 = db st"
    using do_fetch_eq(1) [OF fe] by simp
  show ?thesis
  proof (cases r)
    case (Inl e)
    with None fe st2 show ?thesis by (simp add: retry_email_def)
  next
    case (Inr ms)
    show ?thesis
    proof (cases ms)
      case Nil
      with None fe st2 Inr show ?thesis by (simp add: retry_email_def)
    next
      case (Cons m rest)
      obtain x st3 where ex: "extract_email_data w m u f st2 = (x, st3)"
        by (cases "extract_email_data w m u f st2")
      have st3: "db st3 = db st"
        using extract_email_data_eq(1) [OF ex] st2 by simp
      from None fe Inr Cons ex st3 show ?thesis
        by (cases x) (auto simp: retry_email_def)
    qed
  qed
qed

lemma evolves_retry_email:
  "evolves (db st) (db (retry_email w u f st))"
  using retry_email_db [of w u f st] evolves_mark [of "db st"] by auto

lemma evolves_retry_failed_emails:
  "retry_failed_emails fuel w i st = Some st' \<Longrightarrow> evolves (db st) (db st')"
proof (induction fuel arbitrary: i st)
  case 0
  then show ?case by (simp split: if_splits)
next
  case (Suc fuel)
  show ?case
  proof (cases "i < length (failed_emails st)")
    case False
    with Suc.prems show ?thesis by simp
  next
    case True
    obtain u f where uf: "failed_emails st ! i = (u, f)"
      by (cases "failed_emails st ! i")
    from Suc.prems True uf
    have "retry_failed_emails fuel w (Suc i) (retry_email w u f st) = Some st'"
      by simp
    from evolves_trans [OF evolves_retry_email Suc.IH [OF this]] show ?thesis .
  qed
qed

section \<open>Isolation of a failing message\<close>

















section \<open>What a folder attempt asks the server for\<close>

lemma trace_extract_email_data:
  "\<exists>evs. trace (snd (extract_email_data w m u f st)) = trace st @ evs
         \<and> list_all (fetches_above U) evs"
  by (auto simp: extract_email_data_def split: sum.splits)

lemma trace_process_message:
  assumes "process_message w f m st = (r, st')"
  shows "\<exists>evs. trace st' = trace st @ evs \<and> list_all (fetches_above U) evs"
proof -
  obtain x st1 where ex: "extract_email_data w m (m_uid m) f st = (x, st1)"
    by (cases "extract_email_data w m (m_uid m) f st")
  have t1: "\<exists>evs. trace st1 = trace st @ evs \<and> list_all (fetches_above U) evs"
    using trace_extract_email_data [of w m "m_uid m" f st U] ex by simp
  have "trace st' = trace st1"
    using assms ex
    by (auto simp: process_message_def Let_def split: sum.splits prod.splits)
  with t1 show ?thesis by simp
qed

lemma trace_process_messages:
  "\<exists>evs. trace (process_messages w f ex ms st) = trace st @ evs
         \<and> list_all (fetches_above U) evs"
proof (induction ms arbitrary: st)
  case Nil
  show ?case by simp
next
  case (Cons m ms)
  show ?case
  proof (cases "m_uid m \<in> set ex")
    case True
    with Cons [of st] show ?thesis by simp
  next
    case False
    obtain r st' where pm: "process_message w f m st = (r, st')"
      by (cases "process_message w f m st")
    from trace_process_message [OF pm, of U] obtain e1 where
      e1: "trace st' = trace st @ e1" "list_all (fetches_above U) e1" by blast
    let ?st'' = "case r of None \<Rightarrow> st' | Some e \<Rightarrow> log_error (m_uid m) f e st'"
    have t: "trace ?st'' = trace st'" by (cases r) simp_all
    from Cons [of ?st''] obtain e2 where
      e2: "trace (process_messages w f ex ms ?st'') = trace ?st'' @ e2"
          "list_all (fetches_above U) e2" by blast
    have "process_messages w f ex (m # ms) st = process_messages w f ex ms ?st''"
      using False pm by (cases r) simp_all
    with e1 e2 t have "trace (process_messages w f ex (m # ms) st) = trace st @ (e1 @ e2)
        \<and> list_all (fetches_above U) (e1 @ e2)"
      by simp
    then show ?thesis by blast
  qed
qed

lemma trace_process_batches:
  assumes "list_all (list_all (\<lambda>uid. U < uid)) bs"
  shows "\<exists>evs. trace (snd (process_batches w f ex bs st)) = trace st @ evs
         \<and> list_all (fetches_above U) evs"
  using assms
proof (induction bs arbitrary: st)
  case Nil
  show ?case by simp
next
  case (Cons b bs)
  then have b: "list_all (\<lambda>uid. U < uid) b" and bs: "list_all (list_all (\<lambda>uid. U < uid)) bs"
    by simp_all
  show ?case
  proof (cases "list_all (\<lambda>uid. uid \<in> set ex) b")
    case True
    with Cons.IH [OF bs, of st] show ?thesis by simp
  next
    case False
    obtain r st' where fe: "do_fetch w f (UidIn b) st = (r, st')"
      by (cases "do_fetch w f (UidIn b) st")
    note t1 = do_fetch_eq(5) [OF fe]
    show ?thesis
    proof (cases r)
      case (Inl e)
      with False fe t1 b have "trace (snd (process_batches w f ex (b # bs) st)) =
          trace st @ [Fetch f (UidIn b)] \<and> list_all (fetches_above U) [Fetch f (UidIn b)]"
        by simp
      then show ?thesis by blast
    next
      case (Inr ms)
      from trace_process_messages [of w f ex ms st' U] obtain e2 where
        e2: "trace (process_messages w f ex ms st') = trace st' @ e2"
            "list_all (fetches_above U) e2" by blast
      from Cons.IH [OF bs, of "process_messages w f ex ms st'"] obtain e3 where
        e3: "trace (snd (process_batches w f ex bs (process_messages w f ex ms st'))) =
              trace (process_messages w f ex ms st') @ e3"
            "list_all (fetches_above U) e3" by blast
      from False fe Inr t1 e2 e3 b
      have "trace (snd (process_batches w f ex (b # bs) st)) =
          trace st @ (Fetch f (UidIn b) # e2 @ e3)
          \<and> list_all (fetches_above U) (Fetch f (UidIn b) # e2 @ e3)"
        by simp
      then show ?thesis by blast
    qed
  qed
qed

lemma split_into_batches_subset:
  "b \<in> set (split_into_batches xs n) \<Longrightarrow> set b \<subseteq> set xs"
proof (induction xs n rule: split_into_batches.induct)
  case (1 uids batch_size)
  show ?case
  proof (cases "uids = [] \<or> batch_size = 0")
    case True
    with "1.prems" show ?thesis by (simp add: split_into_batches.simps)
  next
    case False
    with "1.prems" have "b = take batch_size uids
        \<or> b \<in> set (split_into_batches (drop batch_size uids) batch_size)"
      by (simp add: split_into_batches.simps [of uids])
    then show ?thesis
    proof
      assume "b = take batch_size uids"
      then show ?thesis by (auto dest: in_set_takeD)
    next
      assume "b \<in> set (split_into_batches (drop batch_size uids) batch_size)"
      from "1.IH" [OF False this] show ?thesis by (auto dest: in_set_dropD)
    qed
  qed
qed

lemma trace_folder_attempt:
  assumes max: "get_max_uid (db st) f = Some V" and le: "U \<le> V"
    and honest: "\<forall>t n ms. fetch w t f (UidFrom n) = Inr ms \<longrightarrow> list_all (\<lambda>m. n \<le> m_uid m) ms"
  shows "\<exists>evs. trace (snd (folder_attempt w f st)) = trace st @ Fetch f (UidFrom (V + 1)) # evs
         \<and> list_all (fetches_above U) evs"
proof -
  obtain r st1 where fe: "do_fetch w f (UidFrom (V + 1)) st = (r, st1)"
    by (cases "do_fetch w f (UidFrom (V + 1)) st")
  note t1 = do_fetch_eq(5) [OF fe] and r = do_fetch_eq(6) [OF fe]
  show ?thesis
  proof (cases r)
    case (Inl e)
    with fe t1 max show ?thesis
      by (simp add: folder_attempt_def enumeration_criteria_def)
  next
    case (Inr ms)
    with r have "fetch w (clock st) f (UidFrom (V + 1)) = Inr ms" by simp
    from honest [rule_format, OF this] have above: "\<forall>m \<in> set ms. U < m_uid m"
      using le by (auto simp: list_all_iff)
    have "list_all (list_all (\<lambda>uid. U < uid)) (split_into_batches (map m_uid ms) 10)"
      unfolding list_all_iff
    proof (intro ballI)
      fix b u
      assume "b \<in> set (split_into_batches (map m_uid ms) 10)" and "u \<in> set b"
      with split_into_batches_subset have "u \<in> set (map m_uid ms)" by blast
      with above show "U < u" by auto
    qed
    from trace_process_batches [OF this, of w f "get_existing_uids (db st1) f" st1]
    obtain evs where
      "trace (snd (process_batches w f (get_existing_uids (db st1) f)
          (split_into_batches (map m_uid ms) 10) st1)) = trace st1 @ evs"
      "list_all (fetches_above U) evs" by blast
    with fe t1 max Inr show ?thesis
      by (simp add: folder_attempt_def enumeration_criteria_def Let_def)
  qed
qed

section \<open>Incremental fetch\<close>

lemma folder_attempt_above:
  assumes max: "get_max_uid (db st) f = Some V" and le: "U \<le> V"
    and honest: "\<forall>t n ms. fetch w t f (UidFrom n) = Inr ms \<longrightarrow> list_all (\<lambda>m. n \<le> m_uid m) ms"
    and att: "folder_attempt w f st = (r, st')"
  shows "\<exists>evs V'. trace st' = trace st @ Fetch f (UidFrom (V + 1)) # evs
         \<and> list_all (fetches_above U) evs \<and> get_max_uid (db st') f = Some V' \<and> U \<le> V'"
proof -
  from trace_folder_attempt [OF max le honest] att obtain evs where
    t: "trace st' = trace st @ Fetch f (UidFrom (V + 1)) # evs" "list_all (fetches_above U) evs"
    by auto
  from evolves_max_uid [OF evolves_folder_attempt [of st w f] max] att obtain V' where
    "get_max_uid (db st') f = Some V'" "V \<le> V'" by auto
  with t le show ?thesis by auto
qed

text \<open>
  What the requests of a folder look like when the server answers a greater-than
  predicate with matching messages only: the first request is the enumeration from
  \<open>U + 1\<close>, and every later request, in this and in repeated attempts, is an enumeration
  from a higher UID or a batch of UIDs that are all greater than \<open>U\<close>.
\<close>

lemma filtered_enumeration_requests_above:
  assumes max: "get_max_uid (db st) folder = Some U"
    and honest: "\<forall>t n ms. fetch w t folder (UidFrom n) = Inr ms
                   \<longrightarrow> list_all (\<lambda>m. n \<le> m_uid m) ms"
  shows "\<exists>evs. trace (folder_retry_loop w folder 0 st) =
                 trace st @ Fetch folder (UidFrom (U + 1)) # evs
              \<and> list_all (fetches_above U) evs"
proof -
  obtain r1 s1 where a1: "folder_attempt w folder st = (r1, s1)"
    by (cases "folder_attempt w folder st")
  obtain r2 s2 where a2: "folder_attempt w folder (tick (Sleep 5) s1) = (r2, s2)"
    by (cases "folder_attempt w folder (tick (Sleep 5) s1)")
  obtain r3 s3 where a3: "folder_attempt w folder (tick (Sleep 5) s2) = (r3, s3)"
    by (cases "folder_attempt w folder (tick (Sleep 5) s2)")
  from folder_attempt_above [OF max order_refl honest a1] obtain e1 V1 where
    1: "trace s1 = trace st @ Fetch folder (UidFrom (U + 1)) # e1"
       "list_all (fetches_above U) e1" "get_max_uid (db s1) folder = Some V1" "U \<le> V1"
    by blast
  have m1: "get_max_uid (db (tick (Sleep 5) s1)) folder = Some V1"
    using 1 by simp
  from folder_attempt_above [OF m1 \<open>U \<le> V1\<close> honest a2] obtain e2 V2 where
    2: "trace s2 = trace (tick (Sleep 5) s1) @ Fetch folder (UidFrom (V1 + 1)) # e2"
       "list_all (fetches_above U) e2" "get_max_uid (db s2) folder = Some V2" "U \<le> V2"
    by blast
  have m2: "get_max_uid (db (tick (Sleep 5) s2)) folder = Some V2"
    using 2 by simp
  from folder_attempt_above [OF m2 \<open>U \<le> V2\<close> honest a3] obtain e3 V3 where
    3: "trace s3 = trace (tick (Sleep 5) s2) @ Fetch folder (UidFrom (V2 + 1)) # e3"
       "list_all (fetches_above U) e3"
    by blast
  let ?t2 = "e1 @ Sleep 5 # Fetch folder (UidFrom (V1 + 1)) # e2"
  let ?t3 = "?t2 @ Sleep 5 # Fetch folder (UidFrom (V2 + 1)) # e3"
  have t2: "trace s2 = trace st @ Fetch folder (UidFrom (U + 1)) # ?t2"
    using 1 2 by simp
  have t3: "trace s3 = trace st @ Fetch folder (UidFrom (U + 1)) # ?t3"
    using t2 3 by simp
  have l2: "list_all (fetches_above U) ?t2"
    using 1 2 by simp
  have l3: "list_all (fetches_above U) ?t3"
    using l2 2 3 by simp
  consider (one) "folder_retry_loop w folder 0 st = s1"
    | (two) "folder_retry_loop w folder 0 st = s2"
    | (three) "trace (folder_retry_loop w folder 0 st) = trace s3"
    using a1 a2 a3
    by (cases r1; cases r2; cases r3) (simp_all add: folder_retry_loop_unrolled)
  then show ?thesis
  proof cases
    case one
    with 1 show ?thesis by auto
  next
    case two
    with t2 l2 show ?thesis by blast
  next
    case three
    with t3 l3 show ?thesis by (simp only:) blast
  qed
qed

lemma sent_example:
  "get_max_uid (db sent_50_state) ''Sent'' = Some 50
   \<and> trace (folder_retry_loop (steady_world sent_mailbox) ''Sent'' 0 sent_50_state) =
       [Fetch ''Sent'' (UidFrom 51), Fetch ''Sent'' (UidIn [51, 52, 53])]
   \<and> map d_uid (downloaded_emails (db
        (folder_retry_loop (steady_world sent_mailbox) ''Sent'' 0 sent_50_state))) =
       [49, 50, 51, 52, 53]
   \<and> get_max_uid (db (folder_retry_loop (steady_world sent_mailbox) ''Sent'' 0 sent_50_state))
        ''Sent'' = Some 53"
  by code_simp

text \<open>
  Claim C3. With the highest stored UID \<open>U\<close> of a folder, the next sync is to request
  only messages with UID above \<open>U\<close> and to fetch no message with a UID up to \<open>U\<close> again;
  the program logs "Only fetching UIDs > \<open>U\<close>" after its enumeration. It sends the UID
  range \<open>U + 1:*\<close> and takes whatever comes back, and the range always holds the message
  with the highest UID of the folder. With the records 49 and 50 of \<open>Sent\<close> stored and no
  new mail, the answer to the enumeration from 51 is message 50, fetched again in full
  and then skipped. When the folder holds the older messages 47 and 48 instead, the
  answer is message 48, which the run then requests by its UID and stores.
\<close>

theorem C3_stored_message_fetched_again:
  "get_max_uid (db sent_50_state) ''Sent'' = Some 50
   \<and> enumeration_criteria (get_max_uid (db sent_50_state) ''Sent'') = UidFrom 51
   \<and> map_sum id (map m_uid)
        (fetch (steady_world quiet_sent_mailbox) (clock sent_50_state) ''Sent'' (UidFrom 51)) =
       Inr [50]
   \<and> trace (folder_retry_loop (steady_world quiet_sent_mailbox) ''Sent'' 0 sent_50_state) =
       [Fetch ''Sent'' (UidFrom 51)]
   \<and> map_sum id (map m_uid)
        (fetch (steady_world pruned_sent_mailbox) (clock sent_50_state) ''Sent'' (UidFrom 51)) =
       Inr [48]
   \<and> trace (folder_retry_loop (steady_world pruned_sent_mailbox) ''Sent'' 0 sent_50_state) =
       [Fetch ''Sent'' (UidFrom 51), Fetch ''Sent'' (UidIn [48])]
   \<and> map d_uid (downloaded_emails (db
        (folder_retry_loop (steady_world pruned_sent_mailbox) ''Sent'' 0 sent_50_state))) =
       [49, 50, 48]"
  by code_simp

section \<open>A changed UIDVALIDITY\<close>

lemma ensure_mismatch:
  assumes "folder_status w (clock st) folder = Inr status"
    and "List.find (\<lambda>kv. upper (fst kv) = ''UIDVALIDITY'') status = Some (key, current)"
    and "get_uidvalidity (db st) folder = Some stored"
    and "stored \<noteq> current"
  shows "ensure_folder_and_uidvalidity w folder st = (Some RuntimeError, tick (Status folder) st)"
  using assms by (simp add: ensure_folder_and_uidvalidity_def Let_def)

lemma retry_email_queue:
  "set (failed_emails (retry_email w u f st)) \<subseteq> insert (u, f) (set (failed_emails st))"
proof (cases "login w (clock st)")
  case (Some e)
  then show ?thesis by (auto simp: retry_email_def)
next
  case None
  obtain r st2 where fe: "do_fetch w f (UidIn [u]) (tick Login st) = (r, st2)"
    by (cases "do_fetch w f (UidIn [u]) (tick Login st)")
  have q2: "failed_emails st2 = failed_emails st"
    using do_fetch_eq(2) [OF fe] by simp
  show ?thesis
  proof (cases r)
    case (Inl e)
    with None fe q2 show ?thesis by (auto simp: retry_email_def)
  next
    case (Inr ms)
    show ?thesis
    proof (cases ms)
      case Nil
      with None fe q2 Inr show ?thesis by (auto simp: retry_email_def)
    next
      case (Cons m rest)
      obtain x st3 where ex: "extract_email_data w m u f st2 = (x, st3)"
        by (cases "extract_email_data w m u f st2")
      have q3: "failed_emails st3 = failed_emails st"
        using extract_email_data_eq(2) [OF ex] q2 by simp
      from None fe Inr Cons ex q3 show ?thesis
        by (cases x) (auto simp: retry_email_def)
    qed
  qed
qed

text \<open>
  When a folder has a stored UIDVALIDITY value and the status reports a different one, the
  folder loop ends at once in the state it was in, the status query apart: nothing is
  fetched and nothing is written for this folder or for any folder after it.
\<close>

lemma mismatch_halts_folder_loop:
  assumes noskip: "lower folder \<notin> set skip_folders"
    and status: "folder_status w (clock st) folder = Inr status"
    and current: "List.find (\<lambda>kv. upper (fst kv) = ''UIDVALIDITY'') status = Some (key, current)"
    and stored: "get_uidvalidity (db st) folder = Some stored"
    and differs: "stored \<noteq> current"
  shows "process_folders w (folder # rest) st = (Halted, tick (Status folder) st)"
  using noskip ensure_mismatch [OF status current stored differs] by simp

text \<open>
  Claim C2. Once a UIDVALIDITY value is stored for a folder, a later differing status
  value is to halt the processing of that folder and of all folders after it with no
  further write to the store. The program logs "Aborting backup." and raises "Backup
  halted." at the mismatch, but the handler of the folder loop leaves the loop with
  \<open>break\<close>, so the end-of-run retry pass still runs and writes. On the flaky disk,
  \<open>INBOX\<close> has the stored value 100 and the status reports 200: the folder loop halts
  with \<open>downloaded_emails\<close> empty, and the run ends with the raw record of message 1 of
  \<open>Archive\<close>, written by the retry pass after the mismatch was detected.
\<close>

theorem C2_store_written_after_mismatch:
  "get_uidvalidity inbox_100_store ''INBOX'' = Some 100
   \<and> map_sum id (List.find (\<lambda>kv. upper (fst kv) = ''UIDVALIDITY''))
         (folder_status flaky_disk_world (clock flaky_before_inbox) ''INBOX'') =
       Inr (Some (''UIDVALIDITY'', 200))
   \<and> process_folders flaky_disk_world [''Archive'', ''INBOX''] flaky_start =
       (Halted, tick (Status ''INBOX'') flaky_before_inbox)
   \<and> downloaded_emails (db (tick (Status ''INBOX'') flaky_before_inbox)) = []
   \<and> map_option (\<lambda>r. map (\<lambda>d. (d_uid d, d_folder d)) (downloaded_emails (db r)))
         (main 3 flaky_disk_world inbox_100_store) = Some [(1, ''Archive'')]"
  by code_simp

section \<open>The run over a mailbox that does not change\<close>

lemma steady_world_simps [simp]:
  "login (steady_world mb) t = None"
  "folder_list (steady_world mb) t = Inr (mb_folders mb)"
  "folder_status (steady_world mb) t f = Inr (mb_status mb f)"
  "fetch (steady_world mb) t f c = Inr (select_messages c (mb_messages mb f))"
  "save_attachments (steady_world mb) t f u m = mb_save mb f u m"
  by (simp_all add: steady_world_def)

lemma set_select_messages:
  "set (select_messages c ms) = {m \<in> set ms. in_range c (highest_uid ms) (m_uid m)}"
  by (simp add: select_messages_def)

text \<open>The more is stored, the less the enumeration of a folder returns.\<close>

lemma in_range_enumeration_mono:
  assumes "evolves s s'" and "in_range (enumeration_criteria (get_max_uid s' f)) L u"
  shows "in_range (enumeration_criteria (get_max_uid s f)) L u"
proof (cases "get_max_uid s f")
  case None
  then show ?thesis by (simp add: enumeration_criteria_def)
next
  case (Some U)
  from evolves_max_uid [OF assms(1) Some] obtain U' where
    "get_max_uid s' f = Some U'" "U \<le> U'" by blast
  with assms(2) Some show ?thesis
    by (auto simp: enumeration_criteria_def min_def split: if_splits)
qed

lemma covered_mono:
  assumes "covered mb s q f" and "evolves s s'" and "set q \<subseteq> set q'"
  shows "covered mb s' q' f"
  unfolding covered_def list_all_iff
proof
  fix m
  assume "m \<in> set (select_messages (enumeration_criteria (get_max_uid s' f)) (mb_messages mb f))"
  then have "m \<in> set (mb_messages mb f)"
    and "in_range (enumeration_criteria (get_max_uid s' f)) (highest_uid (mb_messages mb f))
          (m_uid m)"
    by (simp_all add: set_select_messages)
  with in_range_enumeration_mono [OF assms(2)]
  have "m \<in> set (select_messages (enumeration_criteria (get_max_uid s f)) (mb_messages mb f))"
    by (simp add: set_select_messages)
  with assms(1) have "is_email_downloaded s (m_uid m) f \<or> (m_uid m, f) \<in> set q"
    by (simp add: covered_def list_all_iff)
  with assms(2,3) show "is_email_downloaded s' (m_uid m) f \<or> (m_uid m, f) \<in> set q'"
    using evolves_downloaded by blast
qed

lemma covered_stored:
  assumes "covered mb s q f" and "\<forall>x \<in> set q. is_email_downloaded s (fst x) (snd x)"
  shows "covered mb s [] f"
  using assms by (fastforce simp: covered_def list_all_iff)

lemma settled_step:
  assumes "settled mb s q fs"
    and "\<And>f. covered mb s q f \<Longrightarrow> covered mb s' q' f"
    and "\<And>f v. get_uidvalidity s f = Some v \<Longrightarrow> get_uidvalidity s' f = Some v"
  shows "settled mb s' q' fs"
  using assms(1)
proof (induction fs)
  case Nil
  show ?case by simp
next
  case (Cons f fs)
  show ?case
  proof (cases "lower f \<in> set skip_folders")
    case True
    with Cons show ?thesis by simp
  next
    case False
    show ?thesis
    proof (cases "List.find (\<lambda>kv. upper (fst kv) = ''UIDVALIDITY'') (mb_status mb f)")
      case None
      with False show ?thesis by simp
    next
      case (Some kv)
      obtain key current where kv: "kv = (key, current)" by (cases kv)
      show ?thesis
      proof (cases "get_uidvalidity s f")
        case None
        with Cons.prems False Some kv show ?thesis by simp
      next
        case stored: (Some v)
        from assms(3) [OF stored] have stored': "get_uidvalidity s' f = Some v" .
        show ?thesis
        proof (cases "v = current")
          case True
          with Cons.prems False Some kv stored
          have "covered mb s q f" and "settled mb s q fs" by simp_all
          with Cons.IH assms(2) have "covered mb s' q' f" and "settled mb s' q' fs"
            by blast+
          with False Some kv stored' True show ?thesis by simp
        next
          case differs: False
          with False Some kv stored' show ?thesis by simp
        qed
      qed
    qed
  qed
qed

lemma settled_mono:
  "settled mb s q fs \<Longrightarrow> evolves s s' \<Longrightarrow> set q \<subseteq> set q' \<Longrightarrow> settled mb s' q' fs"
  by (erule settled_step) (auto intro: covered_mono evolves_uidvalidity)

lemma settled_stored:
  "settled mb s q fs \<Longrightarrow> \<forall>x \<in> set q. is_email_downloaded s (fst x) (snd x) \<Longrightarrow>
     settled mb s [] fs"
  by (erule settled_step) (auto intro: covered_stored)

section \<open>How a run over such a mailbox advances\<close>

lemma advances_refl [simp]: "advances mb st st"
  by (simp add: advances_def)

lemma advances_trans:
  assumes "advances mb st st'" and "advances mb st' st''"
  shows "advances mb st st''"
proof -
  from assms obtain m1 m2 where
    "failed_emails st' = failed_emails st @ m1" "list_all (retriable mb) m1"
    "failed_emails st'' = failed_emails st' @ m2" "list_all (retriable mb) m2"
    unfolding advances_def by blast
  then have "failed_emails st'' = failed_emails st @ (m1 @ m2)"
    and "list_all (retriable mb) (m1 @ m2)"
    by simp_all
  then have "\<exists>more. failed_emails st'' = failed_emails st @ more \<and> list_all (retriable mb) more"
    by blast
  moreover from assms have "evolves (db st) (db st'')"
    unfolding advances_def by (blast intro: evolves_trans)
  ultimately show ?thesis
    unfolding advances_def by blast
qed

lemma advances_evolves: "advances mb st st' \<Longrightarrow> evolves (db st) (db st')"
  by (simp add: advances_def)

lemma advances_queue:
  "advances mb st st' \<Longrightarrow> set (failed_emails st) \<subseteq> set (failed_emails st')"
  by (auto simp: advances_def)

lemma advances_retriable:
  "advances mb st st' \<Longrightarrow> list_all (retriable mb) (failed_emails st) \<Longrightarrow>
     list_all (retriable mb) (failed_emails st')"
  by (auto simp: advances_def)

lemma advances_same_queue:
  "evolves (db st) (db st') \<Longrightarrow> failed_emails st' = failed_emails st \<Longrightarrow> advances mb st st'"
  by (simp add: advances_def)

lemma steady_process_messages_advances:
  "set ms \<subseteq> set (mb_messages mb f) \<Longrightarrow>
     advances mb st (process_messages (steady_world mb) f ex ms st)"
proof (induction ms arbitrary: st)
  case Nil
  show ?case by simp
next
  case (Cons m ms)
  then have rest: "set ms \<subseteq> set (mb_messages mb f)" and mm: "m \<in> set (mb_messages mb f)"
    by simp_all
  show ?case
  proof (cases "m_uid m \<in> set ex")
    case True
    with Cons.IH [OF rest, of st] show ?thesis by simp
  next
    case False
    obtain r st' where pm: "process_message (steady_world mb) f m st = (r, st')"
      by (cases "process_message (steady_world mb) f m st")
    have q: "failed_emails st' = failed_emails st"
      using process_message_result [OF pm] by simp
    note e = evolves_process_message [OF pm]
    show ?thesis
    proof (cases r)
      case None
      have "advances mb st st'"
        using e q by (rule advances_same_queue)
      from advances_trans [OF this Cons.IH [OF rest, of st']] False pm None
      show ?thesis by simp
    next
      case (Some x)
      have "retriable mb (m_uid m, f)"
        using mm by (auto simp: list_ex_iff)
      then have "advances mb st (log_error (m_uid m) f x st')"
        using e q unfolding advances_def by simp
      from advances_trans [OF this Cons.IH [OF rest, of "log_error (m_uid m) f x st'"]]
        False pm Some
      show ?thesis by simp
    qed
  qed
qed

lemma steady_process_batches_advances:
  "fst (process_batches (steady_world mb) f ex bs st) = None
   \<and> advances mb st (snd (process_batches (steady_world mb) f ex bs st))"
proof (induction bs arbitrary: st)
  case Nil
  show ?case by simp
next
  case (Cons b bs)
  show ?case
  proof (cases "list_all (\<lambda>uid. uid \<in> set ex) b")
    case True
    with Cons [of st] show ?thesis by simp
  next
    case False
    let ?ms = "select_messages (UidIn b) (mb_messages mb f)"
    let ?st1 = "tick (Fetch f (UidIn b)) st"
    let ?st2 = "process_messages (steady_world mb) f ex ?ms ?st1"
    have fe: "do_fetch (steady_world mb) f (UidIn b) st = (Inr ?ms, ?st1)"
      by (simp add: do_fetch_def)
    have pb: "process_batches (steady_world mb) f ex (b # bs) st =
        process_batches (steady_world mb) f ex bs ?st2"
      using False fe by simp
    have "advances mb ?st1 ?st2"
      by (rule steady_process_messages_advances) (auto simp: set_select_messages)
    moreover have "advances mb st ?st1"
      by (simp add: advances_same_queue)
    ultimately have "advances mb st ?st2"
      by (blast intro: advances_trans)
    with Cons [of ?st2] pb show ?thesis
      by (auto intro: advances_trans)
  qed
qed

text \<open>Every message of a batch is stored or queued when the batches are done.\<close>

lemma steady_process_batches_covers:
  assumes "b \<in> set bs" and "m \<in> set (mb_messages mb f)"
    and "m_uid m \<in> set b" and "m_uid m \<notin> set ex"
  shows "is_email_downloaded (db (snd (process_batches (steady_world mb) f ex bs st))) (m_uid m) f
       \<or> (m_uid m, f) \<in> set (failed_emails (snd (process_batches (steady_world mb) f ex bs st)))"
  using assms(1)
proof (induction bs arbitrary: st)
  case Nil
  then show ?case by simp
next
  case (Cons a bs)
  let ?ms = "select_messages (UidIn a) (mb_messages mb f)"
  let ?st1 = "tick (Fetch f (UidIn a)) st"
  let ?st2 = "process_messages (steady_world mb) f ex ?ms ?st1"
  have fe: "do_fetch (steady_world mb) f (UidIn a) st = (Inr ?ms, ?st1)"
    by (simp add: do_fetch_def)
  show ?case
  proof (cases "b = a")
    case True
    with assms(3,4) have notall: "\<not> list_all (\<lambda>uid. uid \<in> set ex) a"
      by (auto simp: list_all_iff)
    then have pb: "process_batches (steady_world mb) f ex (a # bs) st =
        process_batches (steady_world mb) f ex bs ?st2"
      using fe by simp
    from True assms(2,3) have "m \<in> set ?ms"
      by (simp add: set_select_messages)
    from process_messages_persisted_or_queued [OF this assms(4), of "steady_world mb" f ?st1]
    have now: "is_email_downloaded (db ?st2) (m_uid m) f
        \<or> (m_uid m, f) \<in> set (failed_emails ?st2)" .
    have adv: "advances mb ?st2 (snd (process_batches (steady_world mb) f ex bs ?st2))"
      using steady_process_batches_advances by blast
    from now advances_evolves [OF adv] advances_queue [OF adv] show ?thesis
      unfolding pb using evolves_downloaded by blast
  next
    case False
    with Cons.prems have mem: "b \<in> set bs" by simp
    show ?thesis
    proof (cases "list_all (\<lambda>uid. uid \<in> set ex) a")
      case True
      with Cons.IH [OF mem, of st] show ?thesis by simp
    next
      case notall: False
      then have "process_batches (steady_world mb) f ex (a # bs) st =
          process_batches (steady_world mb) f ex bs ?st2"
        using fe by simp
      with Cons.IH [OF mem, of ?st2] show ?thesis by simp
    qed
  qed
qed

lemma in_some_batch:
  "u \<in> set xs \<Longrightarrow> 0 < n \<Longrightarrow> \<exists>b \<in> set (split_into_batches xs n). u \<in> set b"
proof (induction xs n rule: split_into_batches.induct)
  case (1 uids batch_size)
  from "1.prems" have ne: "\<not> (uids = [] \<or> batch_size = 0)" by auto
  then have sp: "split_into_batches uids batch_size =
      take batch_size uids # split_into_batches (drop batch_size uids) batch_size"
    by (simp add: split_into_batches.simps [of uids])
  have "set uids = set (take batch_size uids) \<union> set (drop batch_size uids)"
    by (metis append_take_drop_id set_append)
  with "1.prems"(1) consider "u \<in> set (take batch_size uids)" | "u \<in> set (drop batch_size uids)"
    by auto
  then show ?case
  proof cases
    case 1
    with sp show ?thesis by simp
  next
    case 2
    from "1.IH" [OF ne 2 "1.prems"(2)] sp show ?thesis by auto
  qed
qed

text \<open>One attempt succeeds and leaves the folder covered.\<close>

lemma steady_folder_attempt:
  "fst (folder_attempt (steady_world mb) f st) = None
   \<and> advances mb st (snd (folder_attempt (steady_world mb) f st))
   \<and> covered mb (db (snd (folder_attempt (steady_world mb) f st)))
        (failed_emails (snd (folder_attempt (steady_world mb) f st))) f"
proof -
  let ?c = "enumeration_criteria (get_max_uid (db st) f)"
  let ?E = "select_messages ?c (mb_messages mb f)"
  let ?st1 = "tick (Fetch f ?c) st"
  let ?ex = "get_existing_uids (db st) f"
  let ?bs = "split_into_batches (map m_uid ?E) 10"
  let ?res = "process_batches (steady_world mb) f ?ex ?bs ?st1"
  have att: "folder_attempt (steady_world mb) f st = ?res"
    by (simp add: folder_attempt_def Let_def do_fetch_def)
  from steady_process_batches_advances [of mb f ?ex ?bs ?st1]
  have none: "fst ?res = None" and adv1: "advances mb ?st1 (snd ?res)"
    by simp_all
  have "advances mb st ?st1"
    by (simp add: advances_same_queue)
  from advances_trans [OF this adv1] have adv: "advances mb st (snd ?res)" .
  from advances_evolves [OF adv] have ev: "evolves (db st) (db (snd ?res))" .
  have "covered mb (db (snd ?res)) (failed_emails (snd ?res)) f"
    unfolding covered_def list_all_iff
  proof
    fix m
    assume "m \<in> set (select_messages (enumeration_criteria (get_max_uid (db (snd ?res)) f))
        (mb_messages mb f))"
    then have mm: "m \<in> set (mb_messages mb f)"
      and r': "in_range (enumeration_criteria (get_max_uid (db (snd ?res)) f))
          (highest_uid (mb_messages mb f)) (m_uid m)"
      by (simp_all add: set_select_messages)
    from in_range_enumeration_mono [OF ev r'] mm have inE: "m_uid m \<in> set (map m_uid ?E)"
      by (auto simp: set_select_messages)
    show "is_email_downloaded (db (snd ?res)) (m_uid m) f
        \<or> (m_uid m, f) \<in> set (failed_emails (snd ?res))"
    proof (cases "m_uid m \<in> set ?ex")
      case True
      then have "is_email_downloaded (db st) (m_uid m) f"
        by (simp add: existing_uids_iff)
      with ev show ?thesis
        using evolves_downloaded by blast
    next
      case False
      from in_some_batch [OF inE, of 10] obtain b where
        b: "b \<in> set ?bs" "m_uid m \<in> set b" by auto
      from steady_process_batches_covers [OF b(1) mm b(2) False, of ?st1]
      show ?thesis .
    qed
  qed
  with att none adv show ?thesis by simp
qed

lemma steady_folder_retry_loop_first:
  "folder_retry_loop (steady_world mb) f 0 st = snd (folder_attempt (steady_world mb) f st)"
  using steady_folder_attempt [of mb f st]
  by (cases "folder_attempt (steady_world mb) f st") (simp add: folder_retry_loop_unrolled)

lemma steady_ensure:
  "ensure_folder_and_uidvalidity (steady_world mb) f st =
     (case List.find (\<lambda>kv. upper (fst kv) = ''UIDVALIDITY'') (mb_status mb f) of
        None \<Rightarrow> (Some RuntimeError, tick (Status f) st)
      | Some (key, current) \<Rightarrow>
          (case get_uidvalidity (db st) f of
             None \<Rightarrow> (None, (tick (Status f) st)\<lparr>db := set_uidvalidity (db st) f current\<rparr>)
           | Some stored \<Rightarrow>
               if stored \<noteq> current then (Some RuntimeError, tick (Status f) st)
               else (None, tick (Status f) st)))"
  by (simp add: ensure_folder_and_uidvalidity_def Let_def split: option.splits prod.splits)

text \<open>The folder loop of a run leaves the folder list settled.\<close>

lemma steady_process_folders_settles:
  "advances mb st (snd (process_folders (steady_world mb) fs st))
   \<and> settled mb (db (snd (process_folders (steady_world mb) fs st)))
        (failed_emails (snd (process_folders (steady_world mb) fs st))) fs
   \<and> (\<forall>e. fst (process_folders (steady_world mb) fs st) \<noteq> Crashed e)"
proof (induction fs arbitrary: st)
  case Nil
  show ?case by simp
next
  case (Cons f fs)
  show ?case
  proof (cases "lower f \<in> set skip_folders")
    case True
    with Cons [of st] show ?thesis by simp
  next
    case False
    show ?thesis
    proof (cases "List.find (\<lambda>kv. upper (fst kv) = ''UIDVALIDITY'') (mb_status mb f)")
      case None
      with False show ?thesis
        by (simp add: steady_ensure advances_same_queue)
    next
      case (Some kv)
      obtain key current where kv: "kv = (key, current)" by (cases kv)
      have passes: "advances mb st (snd (process_folders (steady_world mb) (f # fs) st))
          \<and> settled mb (db (snd (process_folders (steady_world mb) (f # fs) st)))
               (failed_emails (snd (process_folders (steady_world mb) (f # fs) st))) (f # fs)
          \<and> (\<forall>e. fst (process_folders (steady_world mb) (f # fs) st) \<noteq> Crashed e)"
        if en: "ensure_folder_and_uidvalidity (steady_world mb) f st = (None, st1)"
          and v1: "get_uidvalidity (db st1) f = Some current"
          and a1: "advances mb st st1" for st1
      proof -
        let ?st2 = "folder_retry_loop (steady_world mb) f 0 st1"
        let ?res = "process_folders (steady_world mb) fs ?st2"
        have pf: "process_folders (steady_world mb) (f # fs) st = ?res"
          using False en by simp
        from steady_folder_attempt [of mb f st1]
        have a2: "advances mb st1 ?st2"
          and cu2: "covered mb (db ?st2) (failed_emails ?st2) f"
          by (simp_all add: steady_folder_retry_loop_first)
        from evolves_uidvalidity [OF advances_evolves [OF a2] v1]
        have v2: "get_uidvalidity (db ?st2) f = Some current" .
        from Cons [of ?st2] have a3: "advances mb ?st2 (snd ?res)"
          and rest: "settled mb (db (snd ?res)) (failed_emails (snd ?res)) fs"
          and nc: "\<forall>e. fst ?res \<noteq> Crashed e"
          by simp_all
        from covered_mono [OF cu2 advances_evolves [OF a3] advances_queue [OF a3]]
        have cu3: "covered mb (db (snd ?res)) (failed_emails (snd ?res)) f" .
        from evolves_uidvalidity [OF advances_evolves [OF a3] v2]
        have v3: "get_uidvalidity (db (snd ?res)) f = Some current" .
        have "settled mb (db (snd ?res)) (failed_emails (snd ?res)) (f # fs)"
          using False Some kv v3 cu3 rest by simp
        moreover have "advances mb st (snd ?res)"
          using a1 a2 a3 by (blast intro: advances_trans)
        ultimately show ?thesis
          using nc pf by simp
      qed
      show ?thesis
      proof (cases "get_uidvalidity (db st) f")
        case None
        let ?st1 = "(tick (Status f) st)\<lparr>db := set_uidvalidity (db st) f current\<rparr>"
        have en: "ensure_folder_and_uidvalidity (steady_world mb) f st = (None, ?st1)"
          using Some kv None by (simp add: steady_ensure)
        have v: "get_uidvalidity (db ?st1) f = Some current"
          by (simp add: get_uidvalidity_set)
        have "advances mb st ?st1"
          using evolves_set_uidvalidity [OF None] by (simp add: advances_same_queue)
        from passes [OF en v this] show ?thesis .
      next
        case stored: (Some v)
        show ?thesis
        proof (cases "v = current")
          case True
          have en: "ensure_folder_and_uidvalidity (steady_world mb) f st =
              (None, tick (Status f) st)"
            using Some kv stored True by (simp add: steady_ensure)
          have v: "get_uidvalidity (db (tick (Status f) st)) f = Some current"
            using stored True by simp
          have "advances mb st (tick (Status f) st)"
            by (simp add: advances_same_queue)
          from passes [OF en v this] show ?thesis .
        next
          case differs: False
          with False Some kv stored show ?thesis
            by (simp add: steady_ensure advances_same_queue)
        qed
      qed
    qed
  qed
qed

section \<open>A run that finds every enumerated message stored\<close>

lemma skipped_batches:
  "\<forall>b \<in> set bs. list_all (\<lambda>uid. uid \<in> set ex) b \<Longrightarrow> process_batches w f ex bs st = (None, st)"
  by (induction bs) simp_all

lemma steady_folder_attempt_noop:
  assumes "covered mb (db st) [] f"
  shows "folder_attempt (steady_world mb) f st =
     (None, tick (Fetch f (enumeration_criteria (get_max_uid (db st) f))) st)"
proof -
  let ?c = "enumeration_criteria (get_max_uid (db st) f)"
  let ?E = "select_messages ?c (mb_messages mb f)"
  let ?st1 = "tick (Fetch f ?c) st"
  let ?ex = "get_existing_uids (db st) f"
  let ?bs = "split_into_batches (map m_uid ?E) 10"
  have att: "folder_attempt (steady_world mb) f st =
      process_batches (steady_world mb) f ?ex ?bs ?st1"
    by (simp add: folder_attempt_def Let_def do_fetch_def)
  from assms have stored: "\<forall>m \<in> set ?E. m_uid m \<in> set ?ex"
    by (simp add: covered_def list_all_iff existing_uids_iff)
  have "\<forall>b \<in> set ?bs. list_all (\<lambda>uid. uid \<in> set ?ex) b"
  proof
    fix b
    assume "b \<in> set ?bs"
    from split_into_batches_subset [OF this] have "set b \<subseteq> m_uid ` set ?E" by simp
    with stored show "list_all (\<lambda>uid. uid \<in> set ?ex) b"
      by (auto simp: list_all_iff)
  qed
  from skipped_batches [OF this] att show ?thesis by simp
qed

lemma steady_process_folders_noop:
  assumes "settled mb (db st) [] fs"
  shows "db (snd (process_folders (steady_world mb) fs st)) = db st
       \<and> failed_emails (snd (process_folders (steady_world mb) fs st)) = failed_emails st"
  using assms
proof (induction fs arbitrary: st)
  case Nil
  then show ?case by simp
next
  case (Cons f fs)
  show ?case
  proof (cases "lower f \<in> set skip_folders")
    case True
    with Cons.IH [of st] Cons.prems show ?thesis by simp
  next
    case False
    show ?thesis
    proof (cases "List.find (\<lambda>kv. upper (fst kv) = ''UIDVALIDITY'') (mb_status mb f)")
      case None
      with False show ?thesis by (simp add: steady_ensure)
    next
      case (Some kv)
      obtain key current where kv: "kv = (key, current)" by (cases kv)
      from Cons.prems False Some kv obtain v where
        stored: "get_uidvalidity (db st) f = Some v"
        by (cases "get_uidvalidity (db st) f") simp_all
      show ?thesis
      proof (cases "v = current")
        case differs: False
        with False Some kv stored show ?thesis by (simp add: steady_ensure)
      next
        case True
        with Cons.prems False Some kv stored
        have cu: "covered mb (db st) [] f" and rest: "settled mb (db st) [] fs" by simp_all
        let ?st1 = "tick (Status f) st"
        have en: "ensure_folder_and_uidvalidity (steady_world mb) f st = (None, ?st1)"
          using Some kv stored True by (simp add: steady_ensure)
        have cu1: "covered mb (db ?st1) [] f" using cu by simp
        let ?st2 = "folder_retry_loop (steady_world mb) f 0 ?st1"
        from steady_folder_attempt_noop [OF cu1] have
          2: "db ?st2 = db st" "failed_emails ?st2 = failed_emails st"
          by (simp_all add: steady_folder_retry_loop_first)
        from rest 2 have "settled mb (db ?st2) [] fs" by simp
        from Cons.IH [OF this] 2 False en show ?thesis by simp
      qed
    qed
  qed
qed

section \<open>The retry pass over such a mailbox\<close>

lemma steady_retry_email_fails:
  assumes "retry_fails mb (u, f)"
  shows "db (retry_email (steady_world mb) u f st) = db st
       \<and> failed_emails (retry_email (steady_world mb) u f st) = failed_emails st @ [(u, f)]"
proof (cases "select_messages (UidIn [u]) (mb_messages mb f)")
  case Nil
  then show ?thesis by (simp add: retry_email_def do_fetch_def)
next
  case (Cons m rest)
  with assms have bad: "extraction_fails mb f m" by simp
  from Cons have "m \<in> set (select_messages (UidIn [u]) (mb_messages mb f))" by simp
  then have mu: "m_uid m = u" by (simp add: set_select_messages)
  let ?st2 = "tick (Fetch f (UidIn [u])) (tick Login st)"
  obtain x st3 where ex: "extract_email_data (steady_world mb) m u f ?st2 = (x, st3)"
    by (cases "extract_email_data (steady_world mb) m u f ?st2")
  from bad ex mu obtain e where x: "x = Inl e"
    by (auto simp: extraction_fails_def extract_email_data_def isl_def)
  have "db st3 = db st" "failed_emails st3 = failed_emails st"
    using extract_email_data_eq(1,2) [OF ex] by simp_all
  with Cons ex x show ?thesis
    by (simp add: retry_email_def do_fetch_def)
qed

lemma steady_retry_email_succeeds:
  assumes "\<not> retry_fails mb (u, f)"
  shows "failed_emails (retry_email (steady_world mb) u f st) = failed_emails st
       \<and> is_email_downloaded (db (retry_email (steady_world mb) u f st)) u f"
proof (cases "select_messages (UidIn [u]) (mb_messages mb f)")
  case Nil
  with assms show ?thesis by simp
next
  case (Cons m rest)
  with assms have good: "\<not> extraction_fails mb f m" by simp
  from Cons have "m \<in> set (select_messages (UidIn [u]) (mb_messages mb f))" by simp
  then have mu: "m_uid m = u" by (simp add: set_select_messages)
  let ?st2 = "tick (Fetch f (UidIn [u])) (tick Login st)"
  obtain x st3 where ex: "extract_email_data (steady_world mb) m u f ?st2 = (x, st3)"
    by (cases "extract_email_data (steady_world mb) m u f ?st2")
  from good ex mu obtain data where x: "x = Inr data"
    by (cases "mb_save mb f u m")
       (auto simp: extraction_fails_def extract_email_data_def split: if_splits)
  have "failed_emails st3 = failed_emails st"
    using extract_email_data_eq(2) [OF ex] by simp
  with Cons ex x show ?thesis
    by (simp add: retry_email_def do_fetch_def is_email_downloaded_mark downloaded_row_of_def)
qed

text \<open>An entry whose retry fails keeps the loop from ending, whatever the bound.\<close>

lemma steady_retry_never_ends:
  "i \<le> j \<Longrightarrow> j < length (failed_emails st) \<Longrightarrow> retry_fails mb (failed_emails st ! j) \<Longrightarrow>
     retry_failed_emails fuel (steady_world mb) i st = None"
proof (induction fuel arbitrary: i j st)
  case 0
  then show ?case by simp
next
  case (Suc fuel)
  from Suc.prems have i: "i < length (failed_emails st)" by simp
  obtain u f where uf: "failed_emails st ! i = (u, f)"
    by (cases "failed_emails st ! i")
  let ?st1 = "retry_email (steady_world mb) u f st"
  have "retry_failed_emails fuel (steady_world mb) (Suc i) ?st1 = None"
  proof (cases "i = j")
    case True
    with Suc.prems(3) uf have "retry_fails mb (u, f)" by simp
    from steady_retry_email_fails [OF this, of st]
    have q: "failed_emails ?st1 = failed_emails st @ [(u, f)]" by simp
    have "Suc i \<le> length (failed_emails st)" using i by simp
    moreover have "length (failed_emails st) < length (failed_emails ?st1)"
      using q by simp
    moreover have "retry_fails mb (failed_emails ?st1 ! length (failed_emails st))"
      using q \<open>retry_fails mb (u, f)\<close> by simp
    ultimately show ?thesis by (rule Suc.IH)
  next
    case False
    with Suc.prems(1) have le: "Suc i \<le> j" by simp
    have "\<exists>more. failed_emails ?st1 = failed_emails st @ more"
      using steady_retry_email_fails [of mb u f st] steady_retry_email_succeeds [of mb u f st]
      by (cases "retry_fails mb (u, f)") auto
    then obtain more where q: "failed_emails ?st1 = failed_emails st @ more" ..
    have "j < length (failed_emails ?st1)"
      using q Suc.prems(2) by simp
    moreover have "retry_fails mb (failed_emails ?st1 ! j)"
      using q Suc.prems(2,3) by (simp add: nth_append)
    ultimately show ?thesis
      using le Suc.IH by blast
  qed
  with i uf show ?case by simp
qed

text \<open>When the loop ends, every entry from its position on was retried with success.\<close>

lemma steady_retry_returned:
  "retry_failed_emails fuel (steady_world mb) i st = Some st' \<Longrightarrow>
     failed_emails st' = failed_emails st
     \<and> (\<forall>j. i \<le> j \<and> j < length (failed_emails st) \<longrightarrow>
           is_email_downloaded (db st') (fst (failed_emails st ! j)) (snd (failed_emails st ! j)))"
proof (induction fuel arbitrary: i st)
  case 0
  then show ?case by (auto split: if_splits)
next
  case (Suc fuel)
  show ?case
  proof (cases "i < length (failed_emails st)")
    case False
    with Suc.prems show ?thesis by auto
  next
    case True
    obtain u f where uf: "failed_emails st ! i = (u, f)"
      by (cases "failed_emails st ! i")
    let ?st1 = "retry_email (steady_world mb) u f st"
    from Suc.prems True uf
    have rest: "retry_failed_emails fuel (steady_world mb) (Suc i) ?st1 = Some st'"
      by simp
    have ok: "\<not> retry_fails mb (u, f)"
    proof
      assume bad: "retry_fails mb (u, f)"
      from steady_retry_email_fails [OF bad, of st]
      have q: "failed_emails ?st1 = failed_emails st @ [(u, f)]" by simp
      have "retry_failed_emails fuel (steady_world mb) (Suc i) ?st1 = None"
      proof (rule steady_retry_never_ends)
        show "Suc i \<le> length (failed_emails st)" using True by simp
        show "length (failed_emails st) < length (failed_emails ?st1)" using q by simp
        show "retry_fails mb (failed_emails ?st1 ! length (failed_emails st))"
          using q bad by simp
      qed
      with rest show False by simp
    qed
    from steady_retry_email_succeeds [OF ok, of st]
    have q: "failed_emails ?st1 = failed_emails st"
      and here: "is_email_downloaded (db ?st1) u f"
      by simp_all
    from Suc.IH [OF rest] q have
      q': "failed_emails st' = failed_emails st" and
      later: "\<forall>j. Suc i \<le> j \<and> j < length (failed_emails st) \<longrightarrow>
           is_email_downloaded (db st') (fst (failed_emails st ! j)) (snd (failed_emails st ! j))"
      by simp_all
    from evolves_retry_failed_emails [OF rest] here
    have "is_email_downloaded (db st') u f"
      by (rule evolves_downloaded)
    with uf have this_one: "is_email_downloaded (db st')
        (fst (failed_emails st ! i)) (snd (failed_emails st ! i))"
      by simp
    have "is_email_downloaded (db st') (fst (failed_emails st ! j)) (snd (failed_emails st ! j))"
      if "i \<le> j" "j < length (failed_emails st)" for j
      using that this_one later by (cases "j = i") auto
    with q' show ?thesis by blast
  qed
qed

text \<open>When no entry's retry fails, the loop ends as soon as the bound allows a full pass.\<close>

lemma steady_retry_returns:
  "\<forall>j. i \<le> j \<and> j < length (failed_emails st) \<longrightarrow> \<not> retry_fails mb (failed_emails st ! j) \<Longrightarrow>
   length (failed_emails st) - i \<le> fuel \<Longrightarrow>
     \<exists>st'. retry_failed_emails fuel (steady_world mb) i st = Some st'"
proof (induction fuel arbitrary: i st)
  case 0
  then show ?case by simp
next
  case (Suc fuel)
  show ?case
  proof (cases "i < length (failed_emails st)")
    case False
    then show ?thesis by simp
  next
    case True
    obtain u f where uf: "failed_emails st ! i = (u, f)"
      by (cases "failed_emails st ! i")
    let ?st1 = "retry_email (steady_world mb) u f st"
    from Suc.prems(1) True uf have "\<not> retry_fails mb (u, f)"
      by (metis order_refl)
    from steady_retry_email_succeeds [OF this, of st]
    have q: "failed_emails ?st1 = failed_emails st" by simp
    have "\<exists>st'. retry_failed_emails fuel (steady_world mb) (Suc i) ?st1 = Some st'"
    proof (rule Suc.IH)
      show "\<forall>j. Suc i \<le> j \<and> j < length (failed_emails ?st1) \<longrightarrow>
          \<not> retry_fails mb (failed_emails ?st1 ! j)"
        using Suc.prems(1) q by simp
      show "length (failed_emails ?st1) - Suc i \<le> fuel"
        using Suc.prems(2) q by simp
    qed
    with True uf show ?thesis by simp
  qed
qed

lemma retry_failed_emails_more_fuel:
  "retry_failed_emails fuel w i st = Some r \<Longrightarrow> retry_failed_emails (fuel + k) w i st = Some r"
proof (induction fuel arbitrary: i st)
  case 0
  then show ?case by (cases k) (simp_all split: if_splits)
next
  case (Suc fuel)
  show ?case
  proof (cases "i < length (failed_emails st)")
    case False
    with Suc.prems show ?thesis by simp
  next
    case True
    obtain u f where uf: "failed_emails st ! i = (u, f)"
      by (cases "failed_emails st ! i")
    from Suc.prems True uf
    have "retry_failed_emails fuel w (Suc i) (retry_email w u f st) = Some r"
      by simp
    from Suc.IH [OF this] True uf show ?thesis by simp
  qed
qed

lemma main_more_fuel:
  "main fuel w s0 = Some r \<Longrightarrow> main (fuel + k) w s0 = Some r"
  unfolding main_def Let_def
  by (auto split: option.splits sum.splits prod.splits outcome.splits
      intro: retry_failed_emails_more_fuel)

lemma retriable_retry_succeeds:
  assumes "retriable mb (u, f)"
    and "\<forall>m \<in> set (mb_messages mb f). \<not> extraction_fails mb f m"
  shows "\<not> retry_fails mb (u, f)"
proof (cases "select_messages (UidIn [u]) (mb_messages mb f)")
  case Nil
  from assms(1) obtain m where "m \<in> set (mb_messages mb f)" "m_uid m = u"
    by (auto simp: list_ex_iff)
  then have "m \<in> set (select_messages (UidIn [u]) (mb_messages mb f))"
    by (simp add: set_select_messages)
  with Nil show ?thesis by simp
next
  case (Cons m rest)
  then have "m \<in> set (select_messages (UidIn [u]) (mb_messages mb f))" by simp
  then have "m \<in> set (mb_messages mb f)"
    by (simp add: set_select_messages)
  with assms(2) Cons show ?thesis by simp
qed

section \<open>Idempotence of the sync\<close>

lemma retry_failed_emails_empty:
  "failed_emails st = [] \<Longrightarrow> retry_failed_emails fuel w 0 st = Some st"
  by (cases fuel) simp_all

text \<open>
  Whenever a run over a mailbox that does not change returns, every message its
  enumerations returned has a raw record, so the next run skips every batch.
\<close>

lemma second_run_noop:
  assumes run1: "main n (steady_world mb) s0 = Some r1"
  shows "\<exists>r2. (\<forall>k. main k (steady_world mb) (db r1) = Some r2)
            \<and> db r2 = db r1 \<and> failed_emails r2 = [] \<and> evolves s0 (db r1)"
proof -
  let ?w = "steady_world mb"
  let ?fs = "mb_folders mb"
  let ?start1 = "tick ListFolders (tick Login (initial_state s0))"
  let ?start2 = "tick ListFolders (tick Login (initial_state (db r1)))"
  obtain oc1 st1 where pf1: "process_folders ?w ?fs ?start1 = (oc1, st1)"
    by (cases "process_folders ?w ?fs ?start1")
  obtain oc2 st2 where pf2: "process_folders ?w ?fs ?start2 = (oc2, st2)"
    by (cases "process_folders ?w ?fs ?start2")
  have lg: "login ?w 0 = None" and fl: "folder_list ?w 1 = Inr ?fs"
    by simp_all
  from steady_process_folders_settles [of mb ?start1 ?fs] pf1 have
    adv1: "advances mb ?start1 st1" and
    settled1: "settled mb (db st1) (failed_emails st1) ?fs" and nc1: "\<forall>e. oc1 \<noteq> Crashed e"
    by simp_all
  from nc1 have ret1: "retry_failed_emails n ?w 0 st1 = Some r1"
    using main_after_folders [OF lg fl pf1, of n] run1 by (cases oc1) simp_all
  have ev_retry: "evolves (db st1) (db r1)"
    using ret1 by (rule evolves_retry_failed_emails)
  from steady_retry_returned [OF ret1] have
    nth: "\<forall>j. j < length (failed_emails st1) \<longrightarrow>
        is_email_downloaded (db r1) (fst (failed_emails st1 ! j)) (snd (failed_emails st1 ! j))"
    by simp
  have stored: "\<forall>x \<in> set (failed_emails st1). is_email_downloaded (db r1) (fst x) (snd x)"
  proof
    fix x
    assume "x \<in> set (failed_emails st1)"
    then obtain j where "j < length (failed_emails st1)" "failed_emails st1 ! j = x"
      by (auto simp: in_set_conv_nth)
    with nth show "is_email_downloaded (db r1) (fst x) (snd x)" by auto
  qed
  from settled_mono [OF settled1 ev_retry subset_refl]
  have "settled mb (db r1) (failed_emails st1) ?fs" .
  from settled_stored [OF this stored] have settled2: "settled mb (db ?start2) [] ?fs"
    by (simp add: initial_state_def)
  from steady_process_folders_noop [OF settled2] pf2 have
    same: "db st2 = db r1" and q: "failed_emails st2 = []"
    by (simp_all add: initial_state_def)
  from steady_process_folders_settles [of mb ?start2 ?fs] pf2 have nc2: "\<forall>e. oc2 \<noteq> Crashed e"
    by simp
  have "main k ?w (db r1) = Some st2" for k
    using main_after_folders [OF lg fl pf2, of k] nc2 retry_failed_emails_empty [OF q, of k ?w]
    by (cases oc2) simp_all
  moreover have "evolves s0 (db r1)"
    using advances_evolves [OF adv1] ev_retry
    by (simp add: initial_state_def) (rule evolves_trans)
  ultimately show ?thesis
    using same q by blast
qed

text \<open>When the attachments of every message can be saved, a run returns.\<close>

lemma first_run_returns:
  assumes good: "\<forall>f. \<forall>m \<in> set (mb_messages mb f). \<not> extraction_fails mb f m"
  shows "\<exists>n r1. \<forall>k. main (n + k) (steady_world mb) s0 = Some r1"
proof -
  let ?w = "steady_world mb"
  let ?fs = "mb_folders mb"
  let ?start1 = "tick ListFolders (tick Login (initial_state s0))"
  obtain oc1 st1 where pf1: "process_folders ?w ?fs ?start1 = (oc1, st1)"
    by (cases "process_folders ?w ?fs ?start1")
  have lg: "login ?w 0 = None" and fl: "folder_list ?w 1 = Inr ?fs"
    by simp_all
  from steady_process_folders_settles [of mb ?start1 ?fs] pf1 have
    adv1: "advances mb ?start1 st1" and nc1: "\<forall>e. oc1 \<noteq> Crashed e"
    by simp_all
  have "list_all (retriable mb) (failed_emails ?start1)"
    by (simp add: initial_state_def)
  from advances_retriable [OF adv1 this] have rt: "list_all (retriable mb) (failed_emails st1)" .
  have "\<not> retry_fails mb (failed_emails st1 ! j)" if "j < length (failed_emails st1)" for j
  proof -
    obtain u f where uf: "failed_emails st1 ! j = (u, f)"
      by (cases "failed_emails st1 ! j")
    from rt that uf have "retriable mb (u, f)"
      by (metis list_all_length)
    from retriable_retry_succeeds [OF this] good uf show ?thesis by simp
  qed
  then have "\<forall>j. 0 \<le> j \<and> j < length (failed_emails st1)
      \<longrightarrow> \<not> retry_fails mb (failed_emails st1 ! j)"
    by blast
  from steady_retry_returns [OF this, of "length (failed_emails st1)"] obtain r1 where
    "retry_failed_emails (length (failed_emails st1)) ?w 0 st1 = Some r1"
    by auto
  with nc1 have "main (length (failed_emails st1)) ?w s0 = Some r1"
    using main_after_folders [OF lg fl pf1, of "length (failed_emails st1)"]
    by (cases oc1) simp_all
  then have "\<forall>k. main (length (failed_emails st1) + k) ?w s0 = Some r1"
    by (simp add: main_more_fuel)
  then show ?thesis by blast
qed

text \<open>
  Claim C1. Against a mailbox that does not change, whose server answers the UID range
  of the enumeration with the last message of the folder when there is nothing new:
  whenever a run returns, a second run from the store it left returns as well, whatever
  the bound on its retry loop, queues nothing, and leaves the store exactly as the first
  run left it, so no row is added to any table; raw records with distinct keys and
  distinct role links are still distinct after the first run. And a run does return,
  under every bound from some bound on, when the attachments of every message can be
  saved.
\<close>

theorem C1_sync_idempotent:
  "(\<forall>n r1. main n (steady_world mb) s0 = Some r1 \<longrightarrow>
      (\<exists>r2. (\<forall>k. main k (steady_world mb) (db r1) = Some r2)
          \<and> db r2 = db r1 \<and> failed_emails r2 = []
          \<and> (distinct (raw_keys s0) \<longrightarrow> distinct (raw_keys (db r1)))
          \<and> (distinct (email_participant s0) \<longrightarrow> distinct (email_participant (db r1)))))
   \<and> ((\<forall>f. \<forall>m \<in> set (mb_messages mb f). \<not> extraction_fails mb f m) \<longrightarrow>
        (\<exists>n r1. \<forall>k. main (n + k) (steady_world mb) s0 = Some r1))"
proof (intro conjI allI impI)
  fix n r1
  assume "main n (steady_world mb) s0 = Some r1"
  from second_run_noop [OF this] obtain r2 where
    r2: "\<forall>k. main k (steady_world mb) (db r1) = Some r2" "db r2 = db r1" "failed_emails r2 = []"
    and ev: "evolves s0 (db r1)"
    by blast
  from ev have "distinct (raw_keys s0) \<longrightarrow> distinct (raw_keys (db r1))"
    and "distinct (email_participant s0) \<longrightarrow> distinct (email_participant (db r1))"
    by (simp_all add: evolves_raw_keys evolves_distinct)
  with r2 show "\<exists>r2. (\<forall>k. main k (steady_world mb) (db r1) = Some r2)
          \<and> db r2 = db r1 \<and> failed_emails r2 = []
          \<and> (distinct (raw_keys s0) \<longrightarrow> distinct (raw_keys (db r1)))
          \<and> (distinct (email_participant s0) \<longrightarrow> distinct (email_participant (db r1)))"
    by blast
next
  assume "\<forall>f. \<forall>m \<in> set (mb_messages mb f). \<not> extraction_fails mb f m"
  then show "\<exists>n r1. \<forall>k. main (n + k) (steady_world mb) s0 = Some r1"
    by (rule first_run_returns)
qed

text \<open>
  The mailbox with the batch of three messages. The first run stores all three, queues
  the one without Message-ID and retries it, which finds its raw record in place. The
  second run asks for the range from 14, is handed message 13 again, and skips it.
\<close>

lemma mixed_mailbox_runs:
  "main 3 (steady_world mixed_mailbox) empty_store =
     Some (the (main 3 (steady_world mixed_mailbox) empty_store))
   \<and> map d_uid (downloaded_emails (db (the (main 3 (steady_world mixed_mailbox) empty_store)))) =
       [11, 12, 13]
   \<and> map e_pk (email (db (the (main 3 (steady_world mixed_mailbox) empty_store)))) = [1, 2, 3]
   \<and> email_participant (db (the (main 3 (steady_world mixed_mailbox) empty_store))) =
       [(1, 1, ''from''), (3, 1, ''from'')]
   \<and> failed_emails (the (main 3 (steady_world mixed_mailbox) empty_store)) = [(12, ''INBOX'')]
   \<and> trace (the (main 3 (steady_world mixed_mailbox) empty_store)) =
       [Login, ListFolders, Status ''INBOX'', Fetch ''INBOX'' AllMessages,
        Fetch ''INBOX'' (UidIn [11, 12, 13]), Login, Fetch ''INBOX'' (UidIn [12])]
   \<and> trace (the (main 0 (steady_world mixed_mailbox)
                  (db (the (main 3 (steady_world mixed_mailbox) empty_store))))) =
       [Login, ListFolders, Status ''INBOX'', Fetch ''INBOX'' (UidFrom 14)]
   \<and> map_sum id (map m_uid) (fetch (steady_world mixed_mailbox) 3 ''INBOX'' (UidFrom 14)) =
       Inr [13]"
  by code_simp

theorem C1_sync_idempotent_witness:
  "main 3 (steady_world mixed_mailbox) empty_store =
     Some (the (main 3 (steady_world mixed_mailbox) empty_store))
   \<and> (\<exists>n r1. \<forall>k. main (n + k) (steady_world mixed_mailbox) empty_store = Some r1)
   \<and> main 0 (steady_world mixed_mailbox)
         (db (the (main 3 (steady_world mixed_mailbox) empty_store))) =
       Some (the (main 0 (steady_world mixed_mailbox)
                (db (the (main 3 (steady_world mixed_mailbox) empty_store)))))
   \<and> db (the (main 0 (steady_world mixed_mailbox)
                (db (the (main 3 (steady_world mixed_mailbox) empty_store))))) =
     db (the (main 3 (steady_world mixed_mailbox) empty_store))
   \<and> failed_emails (the (main 0 (steady_world mixed_mailbox)
                (db (the (main 3 (steady_world mixed_mailbox) empty_store))))) = []
   \<and> distinct (raw_keys (db (the (main 3 (steady_world mixed_mailbox) empty_store))))
   \<and> distinct (email_participant (db (the (main 3 (steady_world mixed_mailbox) empty_store))))
   \<and> map d_uid (downloaded_emails (db (the (main 3 (steady_world mixed_mailbox) empty_store)))) =
       [11, 12, 13]
   \<and> map e_pk (email (db (the (main 3 (steady_world mixed_mailbox) empty_store)))) = [1, 2, 3]
   \<and> email_participant (db (the (main 3 (steady_world mixed_mailbox) empty_store))) =
       [(1, 1, ''from''), (3, 1, ''from'')]
   \<and> failed_emails (the (main 3 (steady_world mixed_mailbox) empty_store)) = [(12, ''INBOX'')]
   \<and> trace (the (main 0 (steady_world mixed_mailbox)
                  (db (the (main 3 (steady_world mixed_mailbox) empty_store))))) =
       [Login, ListFolders, Status ''INBOX'', Fetch ''INBOX'' (UidFrom 14)]
   \<and> map_sum id (map m_uid) (fetch (steady_world mixed_mailbox) 3 ''INBOX'' (UidFrom 14)) =
       Inr [13]"
proof -
  let ?W = "steady_world mixed_mailbox"
  let ?R1 = "the (main 3 ?W empty_store)"
  from mixed_mailbox_runs have run1: "main 3 ?W empty_store = Some ?R1"
    by blast
  have good: "\<forall>f. \<forall>m \<in> set (mb_messages mixed_mailbox f). \<not> extraction_fails mixed_mailbox f m"
    by (simp add: mixed_mailbox_def mixed_batch_def extraction_fails_def plain_message_def
        example_message_def)
  note inst = C1_sync_idempotent [of mixed_mailbox empty_store]
  from inst good have returns: "\<exists>n r1. \<forall>k. main (n + k) ?W empty_store = Some r1"
    by blast
  from inst run1 obtain r2 where
    r2: "\<forall>k. main k ?W (db ?R1) = Some r2" "db r2 = db ?R1" "failed_emails r2 = []"
    and d: "distinct (raw_keys empty_store) \<longrightarrow> distinct (raw_keys (db ?R1))"
      "distinct (email_participant empty_store) \<longrightarrow> distinct (email_participant (db ?R1))"
    by blast
  from r2(1) have run2: "main 0 ?W (db ?R1) = Some r2" by blast
  then have eq: "the (main 0 ?W (db ?R1)) = r2" by simp
  from d have dist: "distinct (raw_keys (db ?R1))" "distinct (email_participant (db ?R1))"
    by (simp_all add: empty_store_def raw_keys_def)
  from run2 eq have "main 0 ?W (db ?R1) = Some (the (main 0 ?W (db ?R1)))"
    by simp
  moreover from r2 eq have "db (the (main 0 ?W (db ?R1))) = db ?R1"
    and "failed_emails (the (main 0 ?W (db ?R1))) = []"
    by simp_all
  ultimately show ?thesis
    using run1 returns dist mixed_mailbox_runs by blast
qed

end
